theory Spec2Isabelle
  imports Main "HOL-Library.AList"
begin

section \<open>Values and exceptions shared by the utilities of primitives.py\<close>

text \<open>
  Python values as far as the utilities look at them. Dictionaries are mutable objects and
  live in a store; a value refers to an object by its address (\<open>VRef\<close>). \<open>VWeak\<close> is a
  \<open>weakref.ref\<close> object pointing at an address.
\<close>

type_synonym addr = nat

datatype val = VNone | VBool bool | VInt int | VStr string | VRef addr | VWeak addr

text \<open>
  An exception is its class and the text \<open>str()\<close> renders it as. Only classes derived
  from \<open>Exception\<close> are modelled.
\<close>

datatype exc_kind = AttributeError | KeyError | TypeError | ValueError | IndexError
  | RuntimeError | OtherError

datatype exc = Exc exc_kind string

section \<open>qlist\<close>

text \<open>
  \<^verbatim>\<open>
  def get( self, index, default = None ):
      if (index < 0) or ( index >= len(self) ):
          return default
      return self[index]
  \<close>
  The index is a Python integer (unbounded). Past the guard the index is within
  \<open>0 .. len-1\<close>, so \<open>self[index]\<close> is the plain element read.
\<close>

definition qlist_get :: "'a list \<Rightarrow> int \<Rightarrow> 'a \<Rightarrow> 'a" where
  "qlist_get self index dflt =
     (if index < 0 \<or> index \<ge> int (length self) then dflt else self ! nat index)"


section \<open>cachedproperty\<close>

text \<open>
  An instance is its attribute dictionary (\<open>__dict__\<close>). The field \<open>calls\<close> is a ghost
  counter: it is incremented at the one place where the getter invokes the wrapped
  function, and nothing else reads or writes it, so that "how often was the computation
  run" can be stated.
\<close>

record inst =
  idict :: "string \<rightharpoonup> val"
  calls :: nat

text \<open>
  The wrapped function receives the instance, the fixed positional and the fixed keyword
  arguments. It may change the instance's attributes, and it returns a value or raises.
\<close>

type_synonym pyfunc =
  "(string \<rightharpoonup> val) \<Rightarrow> val list \<Rightarrow> (string \<times> val) list \<Rightarrow> (exc + val) \<times> (string \<rightharpoonup> val)"

text \<open>\<^verbatim>\<open>getattr(self, name, default)\<close> on an instance attribute.\<close>

definition getattr3 :: "(string \<rightharpoonup> val) \<Rightarrow> string \<Rightarrow> val \<Rightarrow> val" where
  "getattr3 d name dflt = (case d name of None \<Rightarrow> dflt | Some v \<Rightarrow> v)"

definition setattr :: "inst \<Rightarrow> string \<Rightarrow> val \<Rightarrow> inst" where
  "setattr self name v = self\<lparr>idict := (idict self)(name \<mapsto> v)\<rparr>"

record property =
  fget :: "inst \<Rightarrow> (exc + val) \<times> inst"
  fset :: "inst \<Rightarrow> val \<Rightarrow> inst"
  fdel :: "inst \<Rightarrow> inst"

text \<open>
  \<^verbatim>\<open>
  def _cachedproperty( func ):
      varname = '_' + func.func_name
      def getter(self):
          value = getattr( self, varname, None)
          if value is None:
              value = func(self, *args, **kwargs )
              setattr( self, varname, value )
          return value
      def setter(self, value):
          setattr(self, varname, value)
      def deleter(self):
          setattr(self, varname, None)
      return property( getter, setter, deleter )
  \<close>
  Both ways of applying the decorator, bare and with arguments, end in this inner
  function, with \<open>args\<close> and \<open>kwargs\<close> the fixed extra arguments. When \<open>func\<close> raises,
  the exception leaves the getter before \<open>setattr\<close> is reached.
\<close>

definition cached_getter ::
  "val list \<Rightarrow> (string \<times> val) list \<Rightarrow> string \<Rightarrow> pyfunc \<Rightarrow> inst \<Rightarrow> (exc + val) \<times> inst" where
  "cached_getter args kwargs func_name func self =
     (let varname = CHR ''_'' # func_name;
          v = getattr3 (idict self) varname VNone
      in if v = VNone then
           (case func (idict self) args kwargs of
              (Inl e, d) \<Rightarrow> (Inl e, \<lparr>idict = d, calls = Suc (calls self)\<rparr>)
            | (Inr r, d) \<Rightarrow> (Inr r, setattr \<lparr>idict = d, calls = Suc (calls self)\<rparr> varname r))
         else (Inr v, self))"

definition cached_setter :: "string \<Rightarrow> inst \<Rightarrow> val \<Rightarrow> inst" where
  "cached_setter func_name self v = setattr self (CHR ''_'' # func_name) v"

definition cached_deleter :: "string \<Rightarrow> inst \<Rightarrow> inst" where
  "cached_deleter func_name self = setattr self (CHR ''_'' # func_name) VNone"

definition cachedproperty ::
  "val list \<Rightarrow> (string \<times> val) list \<Rightarrow> string \<Rightarrow> pyfunc \<Rightarrow> property" where
  "cachedproperty args kwargs func_name func =
     \<lparr>fget = cached_getter args kwargs func_name func,
      fset = cached_setter func_name,
      fdel = cached_deleter func_name\<rparr>"

text \<open>\<open>reads p n self\<close>: the instance after \<open>n\<close> consecutive reads of the property.\<close>

fun reads :: "property \<Rightarrow> nat \<Rightarrow> inst \<Rightarrow> inst" where
  "reads p 0 self = self"
| "reads p (Suc n) self = reads p n (snd (fget p self))"

text \<open>A computation that raises whenever it is called, leaving the instance as it is.\<close>

definition raising_computation :: pyfunc where
  "raising_computation d args kwargs = (Inl (Exc ValueError ''boom''), d)"

text \<open>No value is cached: the backing attribute is missing or holds \<open>None\<close>.\<close>

definition uncached :: "string \<Rightarrow> inst \<Rightarrow> bool" where
  "uncached func_name self = (getattr3 (idict self) (CHR ''_'' # func_name) VNone = VNone)"

section \<open>weakproperty\<close>

text \<open>
  The instance is its attribute dictionary. Which objects are still alive is a predicate
  on addresses that the garbage collector changes; the property only ever holds a
  \<open>weakref.ref\<close>, so it has no say in it.

  \<open>weakref.ref(value)\<close> raises \<open>TypeError\<close> for a value whose type does not support
  weak references (numbers, strings, \<open>None\<close>, plain dictionaries); \<open>weakable\<close> tells
  which objects do. Calling a \<open>weakref.ref\<close> gives the referent while it is alive and
  \<open>None\<close> afterwards.
\<close>

definition weakref_ref :: "(addr \<Rightarrow> bool) \<Rightarrow> val \<Rightarrow> exc + val" where
  "weakref_ref weakable v =
     (case v of
        VRef a \<Rightarrow> if weakable a then Inr (VWeak a)
                  else Inl (Exc TypeError ''cannot create weak reference'')
      | _ \<Rightarrow> Inl (Exc TypeError ''cannot create weak reference''))"

definition weakref_call :: "(addr \<Rightarrow> bool) \<Rightarrow> addr \<Rightarrow> val" where
  "weakref_call live a = (if live a then VRef a else VNone)"

text \<open>
  \<^verbatim>\<open>
  name = obj.__name__
  def getter(self):
      value = getattr(self, "_" + name, None )
      return value() if isinstance(value, weakref.ref) else value
  def setter( self, value ):
      ref = weakref.ref( value ) if value is not None else None
      setattr( self, '_' + name, ref )
      obj( self, value )
  return property(getter, setter)
  \<close>
  The decorated function \<open>obj\<close> is called after the store, as a hook: it sees the
  instance and the value, may change the instance's attributes and may raise; what it
  returns is dropped.
\<close>

type_synonym pyhook = "(string \<rightharpoonup> val) \<Rightarrow> val \<Rightarrow> exc option \<times> (string \<rightharpoonup> val)"

definition weak_getter :: "string \<Rightarrow> (addr \<Rightarrow> bool) \<Rightarrow> (string \<rightharpoonup> val) \<Rightarrow> val" where
  "weak_getter name live self =
     (let v = getattr3 self (CHR ''_'' # name) VNone
      in case v of VWeak a \<Rightarrow> weakref_call live a | _ \<Rightarrow> v)"

definition weak_setter ::
  "string \<Rightarrow> pyhook \<Rightarrow> (addr \<Rightarrow> bool) \<Rightarrow> (string \<rightharpoonup> val) \<Rightarrow> val
     \<Rightarrow> exc option \<times> (string \<rightharpoonup> val)" where
  "weak_setter name obj weakable self v =
     (case (if v \<noteq> VNone then weakref_ref weakable v else Inr VNone) of
        Inl e \<Rightarrow> (Some e, self)
      | Inr ref \<Rightarrow> obj (self(CHR ''_'' # name \<mapsto> ref)) v)"

section \<open>qdict: attribute access\<close>

text \<open>
  The entries of a dictionary, in insertion order, with distinct keys. Keys are strings.
\<close>

type_synonym items = "(string \<times> val) list"

text \<open>
  \<^verbatim>\<open>
  def __getattr__(self, key):
      if not key in self:
          raise AttributeError(key)
      return self[key]
  \<close>
\<close>

definition qdict_getattr :: "items \<Rightarrow> string \<Rightarrow> exc + val" where
  "qdict_getattr self key =
     (if map_of self key = None then Inl (Exc AttributeError key)
      else case map_of self key of
             Some v \<Rightarrow> Inr v
           | None \<Rightarrow> Inl (Exc KeyError key))"

text \<open>
  \<^verbatim>\<open>
  def __setattr__(self, key, value):
      self[key] = value
  \<close>
\<close>

definition qdict_setattr :: "items \<Rightarrow> string \<Rightarrow> val \<Rightarrow> items" where
  "qdict_setattr self key v = AList.update key v self"

text \<open>
  What the class statement of \<open>qdict\<close> puts into the namespace of the class. The six
  functions of the class body, \<open>__module__\<close> and \<open>__doc__\<close> (the class has a
  docstring) are attributes without \<open>__set__\<close>, which an entry of the instance's
  \<open>__dict__\<close> shadows. The class declares no \<open>__slots__\<close> and its base \<open>dict\<close> has
  neither an instance dictionary nor weak references, so the class statement also
  creates the data descriptors \<open>__dict__\<close> and \<open>__weakref__\<close>.
\<close>

definition qdict_class_names :: "string list" where
  "qdict_class_names =
     [''__module__'', ''__doc__'',
      ''__init__'', ''__getattr__'', ''__setattr__'', ''copy'', ''__add__'', ''update'']"

definition qdict_class_descr :: "string list" where
  "qdict_class_descr = [''__dict__'', ''__weakref__'']"

text \<open>
  What an attribute read gives: a value, or what the attribute of the class under the
  name asked for gives (a bound method, a descriptor's value, a plain attribute of the
  class).
\<close>

datatype attr = Item val | Bound string

text \<open>
  The expression \<open>d.k\<close>. Python calls \<open>__getattr__\<close> only when the ordinary lookup
  (\<open>object.__getattribute__\<close>) has failed. That lookup takes, in this order, a data
  descriptor of the type, an entry of the instance's \<open>__dict__\<close>, any other attribute
  of the type. The type is \<open>qdict\<close> with its bases \<open>dict\<close> and \<open>object\<close>: the
  names those two define are parameters, \<open>descr\<close> for their data descriptors and
  \<open>inherited\<close> for the rest. The methods \<open>copy\<close> and \<open>__add__\<close> themselves depend
  on this order: they call \<open>res.update\<close> and \<open>self.copy\<close>.
\<close>

definition attribute_read ::
  "string list \<Rightarrow> (string \<rightharpoonup> val) \<Rightarrow> string list \<Rightarrow> items \<Rightarrow> string \<Rightarrow> exc + attr" where
  "attribute_read descr instdict inherited self k =
     (if k \<in> set qdict_class_descr \<or> k \<in> set descr then Inr (Bound k)
      else case instdict k of
        Some v \<Rightarrow> Inr (Item v)
      | None \<Rightarrow>
          if k \<in> set qdict_class_names \<or> k \<in> set inherited then Inr (Bound k)
          else map_sum id Item (qdict_getattr self k))"

section \<open>qdict: the store of dictionaries\<close>

text \<open>
  Dictionaries are mutable and shared by reference, and \<open>update\<close> changes its receiver
  and nested dictionaries in place. So the objects live in a store, a list addressed by
  position; allocation appends. Each object knows its class: a plain \<open>dict\<close>, a
  \<open>qdict\<close> (for which \<open>isinstance(_, qdict)\<close> and \<open>isinstance(_, dict)\<close> both hold),
  or anything else, which is no dictionary and not iterable. A reference that points
  outside the store does not occur in a store the program has built; it counts as no
  dictionary.
\<close>

datatype pycls = PlainDict | QDict | OtherObj

record dobj =
  cls :: pycls
  entries :: items

type_synonym heap = "dobj list"

datatype dyn = IsQDict addr | IsDict addr | NotDict

text \<open>
  The two \<open>isinstance\<close> tests of the source: \<open>isinstance(v, qdict)\<close> is
  \<open>dyn_type h v = IsQDict a\<close>, and \<open>isinstance(v, dict)\<close> is \<open>dyn_type h v \<noteq> NotDict\<close>.
\<close>

definition dyn_type :: "heap \<Rightarrow> val \<Rightarrow> dyn" where
  "dyn_type h v =
     (case v of
        VRef a \<Rightarrow>
          if a < length h then
            (case cls (h ! a) of QDict \<Rightarrow> IsQDict a | PlainDict \<Rightarrow> IsDict a | OtherObj \<Rightarrow> NotDict)
          else NotDict
      | _ \<Rightarrow> NotDict)"

definition getitem :: "heap \<Rightarrow> addr \<Rightarrow> string \<Rightarrow> val option" where
  "getitem h a k = map_of (entries (h ! a)) k"

definition keys :: "heap \<Rightarrow> addr \<Rightarrow> string list" where
  "keys h a = map fst (entries (h ! a))"

definition len :: "heap \<Rightarrow> addr \<Rightarrow> nat" where
  "len h a = length (entries (h ! a))"

text \<open>\<open>d[k] = v\<close>: an existing key keeps its place, a new one is added at the end.\<close>

definition setitem :: "heap \<Rightarrow> addr \<Rightarrow> string \<Rightarrow> val \<Rightarrow> heap" where
  "setitem h a k v = h[a := (h ! a)\<lparr>entries := AList.update k v (entries (h ! a))\<rparr>]"

text \<open>\<open>qdict(nv)\<close>: a new \<open>qdict\<close> with the entries of \<open>nv\<close>; the values are shared.\<close>

definition new_qdict :: "heap \<Rightarrow> items \<Rightarrow> heap \<times> addr" where
  "new_qdict h es = (h @ [\<lparr>cls = QDict, entries = es\<rparr>], length h)"

text \<open>
  The built-in \<open>dict.update(other)\<close> with one positional argument: every entry of a
  dictionary \<open>other\<close> is stored into the receiver. A string is iterated as a sequence of
  pairs, which fails at its first character; \<open>None\<close>, numbers and other objects are not
  iterable.
\<close>

definition merge_entries :: "items \<Rightarrow> items \<Rightarrow> items" where
  "merge_entries new_items old_items = fold (\<lambda>(k, v). AList.update k v) new_items old_items"

definition dict_update :: "heap \<Rightarrow> addr \<Rightarrow> val \<Rightarrow> exc + heap" where
  "dict_update h a other =
     (case dyn_type h other of
        IsDict b \<Rightarrow>
          Inr (h[a := (h ! a)\<lparr>entries := merge_entries (entries (h ! b)) (entries (h ! a))\<rparr>])
      | IsQDict b \<Rightarrow>
          Inr (h[a := (h ! a)\<lparr>entries := merge_entries (entries (h ! b)) (entries (h ! a))\<rparr>])
      | NotDict \<Rightarrow>
          (case other of
             VStr s \<Rightarrow>
               if s = [] then Inr h
               else Inl (Exc ValueError ''dictionary update sequence element #0 has length 1'')
           | _ \<Rightarrow> Inl (Exc TypeError ''object is not iterable'')))"

text \<open>Truth value, for \<open>if add:\<close>.\<close>

definition truthy :: "heap \<Rightarrow> val \<Rightarrow> bool" where
  "truthy h v =
     (case v of
        VNone \<Rightarrow> False
      | VBool b \<Rightarrow> b
      | VInt i \<Rightarrow> i \<noteq> 0
      | VStr s \<Rightarrow> s \<noteq> []
      | VRef a \<Rightarrow>
          (case dyn_type h v of NotDict \<Rightarrow> True | IsDict b \<Rightarrow> entries (h ! b) \<noteq> []
           | IsQDict b \<Rightarrow> entries (h ! b) \<noteq> [])
      | VWeak a \<Rightarrow> True)"

definition recursion_limit :: exc where
  "recursion_limit = Exc RuntimeError ''maximum recursion depth exceeded''"

definition size_changed :: exc where
  "size_changed = Exc RuntimeError ''dictionary changed size during iteration''"

section \<open>qdict: update, copy and addition\<close>

text \<open>
  \<^verbatim>\<open>
  for k in self:
      self[k] = source.get(k,self[k])
  \<close>
  The body only overwrites keys that exist, so the dictionary iterated over keeps its
  size and the iteration runs through the keys it started with. \<open>self[k]\<close> and
  \<open>source.get\<close> read the store as it is at that moment (\<open>source\<close> may be \<open>self\<close>).
\<close>

fun overwrite_known :: "heap \<Rightarrow> addr \<Rightarrow> addr \<Rightarrow> string list \<Rightarrow> exc + heap" where
  "overwrite_known h self src [] = Inr h"
| "overwrite_known h self src (k # ks) =
     (case getitem h self k of
        None \<Rightarrow> Inl (Exc KeyError k)
      | Some cur \<Rightarrow>
          overwrite_known
            (setitem h self k (case getitem h src k of None \<Rightarrow> cur | Some v \<Rightarrow> v))
            self src ks)"

text \<open>
  \<^verbatim>\<open>
  def update( self, source, recursive = False, add_keys = True, convert_to_qdict = False ):
      if not isinstance(source, dict): return self
      if not recursive:
          if add_keys:
              super(qdict,self).update(source)
              return self
          for k in self:
              self[k] = source.get(k,self[k])
          return self
      if add_keys:
          for k, nv in source.iteritems():
              if convert_to_qdict and isinstance(nv, dict):
                  nv = qdict(nv)
              if k in self:
                  cv = self[k]
                  if isinstance(cv, qdict):
                      cv.update(nv, recursive = recursive, add_keys = add_keys, convert_to_qdict = convert_to_qdict)
                      continue
                  elif isinstance(cv, dict) and isinstance(nv, dict):
                      cv.update(nv)
                      continue
              self[k] = nv
          return self
      for k, cv in self.iteritems():
          try:
              nv = source[k]
          except KeyError:
              continue
          if isinstance(cv, qdict):
              cv.update(nv, recursive = recursive, add_keys = add_keys)
          elif isinstance(cv, dict):
              cv.update(nv)
          else:
              self[k] = nv
      return self
  \<close>
  Every path returns \<open>self\<close>, and the recursive calls drop what is returned, so \<open>update\<close>
  below gives the store after the call; \<open>qdict_update\<close> adds the returned reference.

  The first argument of \<open>update\<close> is the number of Python frames still available: a call
  that finds none raises the interpreter's recursion error, which is what ends a
  recursion through a cyclic structure. The loops and their bodies are functions of
  their own; they receive the method \<open>cv.update\<close> for the nested calls as the argument
  \<open>upd\<close>, which \<open>update\<close> instantiates with itself at one frame less.
\<close>

type_synonym updater = "heap \<Rightarrow> addr \<Rightarrow> val \<Rightarrow> bool \<Rightarrow> bool \<Rightarrow> bool \<Rightarrow> exc + heap"

text \<open>
  \<^verbatim>\<open>
  if convert_to_qdict and isinstance(nv, dict):
      nv = qdict(nv)
  \<close>
\<close>

definition wrap :: "bool \<Rightarrow> heap \<Rightarrow> val \<Rightarrow> heap \<times> val" where
  "wrap conv h nv =
     (if conv then
        (case dyn_type h nv of
           NotDict \<Rightarrow> (h, nv)
         | IsDict b \<Rightarrow> (case new_qdict h (entries (h ! b)) of (h', a) \<Rightarrow> (h', VRef a))
         | IsQDict b \<Rightarrow> (case new_qdict h (entries (h ! b)) of (h', a) \<Rightarrow> (h', VRef a)))
      else (h, nv))"

text \<open>
  The body of the loop of the branch \<open>recursive\<close>, \<open>add_keys\<close>, for the item \<open>(k, nv0)\<close>
  of the source.
\<close>

definition merge_item :: "updater \<Rightarrow> heap \<Rightarrow> addr \<Rightarrow> bool \<Rightarrow> string \<Rightarrow> val \<Rightarrow> exc + heap" where
  "merge_item upd h self conv k nv0 =
     (case wrap conv h nv0 of
        (h1, nv) \<Rightarrow>
          (case getitem h1 self k of
             None \<Rightarrow> Inr (setitem h1 self k nv)
           | Some cv \<Rightarrow>
               (case dyn_type h1 cv of
                  IsQDict c \<Rightarrow> upd h1 c nv True True conv
                | IsDict c \<Rightarrow>
                    if dyn_type h1 nv \<noteq> NotDict then dict_update h1 c nv
                    else Inr (setitem h1 self k nv)
                | NotDict \<Rightarrow> Inr (setitem h1 self k nv))))"

text \<open>
  \<open>for k, nv in source.iteritems()\<close>. The loop goes through the keys the source had
  when the loop began and reads the value of each key when its turn comes. Before every
  step, the last one included, the iterator compares the dictionary's size with the size
  at the start (argument \<open>n\<close>) and raises if it has changed. Nothing here removes a key,
  so with the size unchanged the keys are unchanged too.
\<close>

fun merge_loop ::
  "updater \<Rightarrow> heap \<Rightarrow> addr \<Rightarrow> addr \<Rightarrow> nat \<Rightarrow> bool \<Rightarrow> string list \<Rightarrow> exc + heap" where
  "merge_loop upd h self src n conv [] =
     (if len h src \<noteq> n then Inl size_changed else Inr h)"
| "merge_loop upd h self src n conv (k # ks) =
     (if len h src \<noteq> n then Inl size_changed
      else case getitem h src k of
        None \<Rightarrow> Inl (Exc KeyError k)
      | Some nv0 \<Rightarrow>
          (case merge_item upd h self conv k nv0 of
             Inl e \<Rightarrow> Inl e
           | Inr h' \<Rightarrow> merge_loop upd h' self src n conv ks))"

text \<open>
  The body of the loop of the branch \<open>recursive\<close>, not \<open>add_keys\<close>, for the item
  \<open>(k, cv)\<close> of the receiver. A key missing in the source is skipped.
\<close>

definition refresh_item :: "updater \<Rightarrow> heap \<Rightarrow> addr \<Rightarrow> addr \<Rightarrow> string \<Rightarrow> val \<Rightarrow> exc + heap" where
  "refresh_item upd h self src k cv =
     (case getitem h src k of
        None \<Rightarrow> Inr h
      | Some nv \<Rightarrow>
          (case dyn_type h cv of
             IsQDict c \<Rightarrow> upd h c nv True False False
           | IsDict c \<Rightarrow> dict_update h c nv
           | NotDict \<Rightarrow> Inr (setitem h self k nv)))"

text \<open>\<open>for k, cv in self.iteritems()\<close>, with the same iterator as above.\<close>

fun refresh_loop ::
  "updater \<Rightarrow> heap \<Rightarrow> addr \<Rightarrow> addr \<Rightarrow> nat \<Rightarrow> string list \<Rightarrow> exc + heap" where
  "refresh_loop upd h self src n [] =
     (if len h self \<noteq> n then Inl size_changed else Inr h)"
| "refresh_loop upd h self src n (k # ks) =
     (if len h self \<noteq> n then Inl size_changed
      else case getitem h self k of
        None \<Rightarrow> Inl (Exc KeyError k)
      | Some cv \<Rightarrow>
          (case refresh_item upd h self src k cv of
             Inl e \<Rightarrow> Inl e
           | Inr h' \<Rightarrow> refresh_loop upd h' self src n ks))"

text \<open>The method past the \<open>isinstance(source, dict)\<close> test; \<open>src\<close> is the source's address.\<close>

definition update_from ::
  "updater \<Rightarrow> heap \<Rightarrow> addr \<Rightarrow> addr \<Rightarrow> bool \<Rightarrow> bool \<Rightarrow> bool \<Rightarrow> exc + heap" where
  "update_from upd h self src recursive add_keys conv =
     (if \<not> recursive then
        (if add_keys then dict_update h self (VRef src)
         else overwrite_known h self src (keys h self))
      else if add_keys then merge_loop upd h self src (len h src) conv (keys h src)
      else refresh_loop upd h self src (len h self) (keys h self))"

primrec update :: "nat \<Rightarrow> updater" where
  "update 0 = (\<lambda>h self source recursive add_keys conv. Inl recursion_limit)"
| "update (Suc d) = (\<lambda>h self source recursive add_keys conv.
     case dyn_type h source of
       NotDict \<Rightarrow> Inr h
     | IsDict src \<Rightarrow> update_from (update d) h self src recursive add_keys conv
     | IsQDict src \<Rightarrow> update_from (update d) h self src recursive add_keys conv)"

definition qdict_update ::
  "nat \<Rightarrow> heap \<Rightarrow> addr \<Rightarrow> val \<Rightarrow> bool \<Rightarrow> bool \<Rightarrow> bool \<Rightarrow> exc + heap \<times> val" where
  "qdict_update d h self source recursive add_keys conv =
     (case update d h self source recursive add_keys conv of
        Inl e \<Rightarrow> Inl e
      | Inr h' \<Rightarrow> Inr (h', VRef self))"

text \<open>
  \<^verbatim>\<open>
  def copy( self, add = None ):
      res = qdict()
      res.update( self, False )
      if add:
          res.update( add )
      return res

  def __add__( self, other ):
      res = self.copy()
      res.update( other )
      return res
  \<close>
  Each of the two is a Python frame of its own, and the calls they make need one more.
\<close>

fun qdict_copy :: "nat \<Rightarrow> heap \<Rightarrow> addr \<Rightarrow> val \<Rightarrow> exc + heap \<times> addr" where
  "qdict_copy 0 h self add = Inl recursion_limit"
| "qdict_copy (Suc d) h self add =
     (case new_qdict h [] of
        (h0, res) \<Rightarrow>
          (case update d h0 res (VRef self) False True False of
             Inl e \<Rightarrow> Inl e
           | Inr h1 \<Rightarrow>
               if truthy h1 add then
                 (case update d h1 res add False True False of
                    Inl e \<Rightarrow> Inl e
                  | Inr h2 \<Rightarrow> Inr (h2, res))
               else Inr (h1, res)))"

fun qdict_add :: "nat \<Rightarrow> heap \<Rightarrow> addr \<Rightarrow> val \<Rightarrow> exc + heap \<times> addr" where
  "qdict_add 0 h self other = Inl recursion_limit"
| "qdict_add (Suc d) h self other =
     (case qdict_copy d h self VNone of
        Inl e \<Rightarrow> Inl e
      | Inr (h1, res) \<Rightarrow>
          (case update d h1 res other False True False of
             Inl e \<Rightarrow> Inl e
           | Inr h2 \<Rightarrow> Inr (h2, res)))"

text \<open>A dictionary has each key once.\<close>

definition wf_heap :: "heap \<Rightarrow> bool" where
  "wf_heap h = list_all (\<lambda>ob. distinct (map fst (entries ob))) h"

text \<open>Two small stores used as examples: \<open>{a: 1, b: 2}\<close> next to \<open>{b: 3, c: 4}\<close>.\<close>

definition store_ab :: heap where
  "store_ab = [\<lparr>cls = QDict, entries = [(''a'', VInt 1), (''b'', VInt 2)]\<rparr>,
               \<lparr>cls = QDict, entries = [(''b'', VInt 3), (''c'', VInt 4)]\<rparr>]"

definition store_ab_plain :: heap where
  "store_ab_plain = [\<lparr>cls = QDict, entries = [(''a'', VInt 1), (''b'', VInt 2)]\<rparr>,
                     \<lparr>cls = PlainDict, entries = [(''b'', VInt 3), (''c'', VInt 4)]\<rparr>]"

section \<open>PrettyObject\<close>

text \<open>
  Class attributes. A class is named; each class has its own namespace, and a lookup on a
  class walks its method resolution order, the class itself first. The attributes read
  here hold \<open>None\<close>, a truth value, a string or a list of names.
\<close>

datatype cval = CNone | CBool bool | CStr string | CList "string list"

type_synonym classes = "string \<Rightarrow> (string \<rightharpoonup> cval)"

text \<open>\<open>getattr(cls, name, default)\<close>, with \<open>mro\<close> the resolution order of \<open>cls\<close>.\<close>

fun getattr_cls :: "classes \<Rightarrow> string list \<Rightarrow> string \<Rightarrow> cval \<Rightarrow> cval" where
  "getattr_cls cs [] name dflt = dflt"
| "getattr_cls cs (c # mro) name dflt =
     (case cs c name of Some v \<Rightarrow> v | None \<Rightarrow> getattr_cls cs mro name dflt)"

text \<open>\<open>cls.name = v\<close> writes the namespace of \<open>cls\<close> itself.\<close>

definition setattr_cls :: "classes \<Rightarrow> string \<Rightarrow> string \<Rightarrow> cval \<Rightarrow> classes" where
  "setattr_cls cs c name v = cs(c := (cs c)(name \<mapsto> v))"

fun ctruthy :: "cval \<Rightarrow> bool" where
  "ctruthy CNone = False"
| "ctruthy (CBool b) = b"
| "ctruthy (CStr s) = (s \<noteq> [])"
| "ctruthy (CList ns) = (ns \<noteq> [])"

text \<open>
  \<open>for n in fields\<close>: a list gives its elements, a string its characters, \<open>None\<close> and
  truth values are not iterable.
\<close>

fun iter_names :: "cval \<Rightarrow> exc + string list" where
  "iter_names (CList ns) = Inr ns"
| "iter_names (CStr s) = Inr (map (\<lambda>c. [c]) s)"
| "iter_names CNone = Inl (Exc TypeError ''object is not iterable'')"
| "iter_names (CBool b) = Inl (Exc TypeError ''object is not iterable'')"

fun join :: "string \<Rightarrow> string list \<Rightarrow> string" where
  "join sep [] = []"
| "join sep [x] = x"
| "join sep (x # y # xs) = x @ sep @ join sep (y # xs)"

text \<open>\<^verbatim>\<open>"{0}={{{0}}}".format(n)\<close>: the name, an equals sign, the name in braces.\<close>

definition field_format :: "string \<Rightarrow> string" where
  "field_format n = n @ ''={'' @ n @ ''}''"

text \<open>
  \<^verbatim>\<open>
  @classmethod
  def get_pretty_fields(cls):
      if not getattr(cls, '__pretty_field_format__', None):
          fields = getattr(cls, '__pretty_fields__', None )
          if not fields:
              fields = getattr(cls, '__slots__', None )
          if not fields:
              cls.__pretty_field_format__ = False
          cls.__pretty_field_format__ = ', '.join([ "{0}={{{0}}}".format(n) for n in fields ])
      return cls.__pretty_field_format__
  \<close>
  \<open>c\<close> is the class and \<open>bases\<close> the rest of its resolution order. The result is the
  value returned or the exception raised, and the classes afterwards. The assignment of
  \<open>False\<close> is followed by the assignment of the joined string on every path: there is no
  \<open>else\<close> and no \<open>return\<close> between the two.
\<close>

definition get_pretty_fields :: "classes \<Rightarrow> string \<Rightarrow> string list \<Rightarrow> (exc + cval) \<times> classes" where
  "get_pretty_fields cs c bases =
     (if \<not> ctruthy (getattr_cls cs (c # bases) ''__pretty_field_format__'' CNone) then
        (let fields0 = getattr_cls cs (c # bases) ''__pretty_fields__'' CNone;
             fields = (if \<not> ctruthy fields0 then getattr_cls cs (c # bases) ''__slots__'' CNone
                       else fields0);
             cs1 = (if \<not> ctruthy fields
                    then setattr_cls cs c ''__pretty_field_format__'' (CBool False) else cs)
         in case iter_names fields of
              Inl e \<Rightarrow> (Inl e, cs1)
            | Inr ns \<Rightarrow>
                (let cs2 = setattr_cls cs1 c ''__pretty_field_format__''
                             (CStr (join '', '' (map field_format ns)))
                 in (Inr (getattr_cls cs2 (c # bases) ''__pretty_field_format__'' CNone), cs2)))
      else (Inr (getattr_cls cs (c # bases) ''__pretty_field_format__'' CNone), cs))"

text \<open>
  What reading an attribute of the instance does: the attribute is missing, the read
  raises (a property, say), or there is a value, given by what \<open>repr\<close> makes of it: a
  string or an exception.
\<close>

datatype access = Absent | Raises exc | Present "exc + string"

text \<open>What the loop stores under a field's name: a string or the exception object.\<close>

datatype shown = Text string | Error exc

text \<open>
  \<^verbatim>\<open>
  try:
      value = repr(getattr(self,name,self._na))
  except Exception as exc:
      value = exc
  \<close>
  \<open>getattr\<close> with a default gives the default for a missing attribute and also when
  the read raises \<open>AttributeError\<close>; the default is \<open>_na\<close>, whose \<open>repr\<close> is \<open>??\<close>.
\<close>

fun field_value :: "access \<Rightarrow> shown" where
  "field_value Absent = Text ''??''"
| "field_value (Raises (Exc k m)) = (if k = AttributeError then Text ''??'' else Error (Exc k m))"
| "field_value (Present (Inl e)) = Error e"
| "field_value (Present (Inr s)) = Text s"

text \<open>How \<open>format\<close> renders a value: a string as it is, an exception through \<open>str\<close>.\<close>

fun render :: "shown \<Rightarrow> string" where
  "render (Text s) = s"
| "render (Error (Exc k m)) = m"

text \<open>
  The replacement field \<open>{f}\<close> of \<open>str.format(**context)\<close>, called without positional
  arguments. A field that is empty or a number asks for a positional argument, any other
  plain text is a keyword. Attribute and index syntax, conversions and format
  specifications (a field with one of \<open>. [ ! :\<close> or a brace) are outside this model and
  give \<open>OtherError\<close>.
\<close>

definition digits :: "string \<Rightarrow> bool" where
  "digits f = list_all (\<lambda>c. c \<in> set ''0123456789'') f"

definition plain_field :: "string \<Rightarrow> bool" where
  "plain_field f = list_all (\<lambda>c. c \<notin> set ''{}.[!:'') f"

definition replace_field :: "(string \<rightharpoonup> shown) \<Rightarrow> string \<Rightarrow> exc + string" where
  "replace_field context f =
     (if \<not> plain_field f then Inl (Exc OtherError ''field syntax outside the model'')
      else if digits f then Inl (Exc IndexError ''tuple index out of range'')
      else case context f of
             None \<Rightarrow> Inl (Exc KeyError (CHR 0x27 # f @ [CHR 0x27]))
           | Some v \<Rightarrow> Inr (render v))"

text \<open>
  \<open>template.format(**context)\<close>, scanning the template. The second argument is \<open>None\<close>
  outside a replacement field and holds the characters of the field read so far, last
  one first, inside. A doubled brace is a literal brace, a single closing brace and an
  unclosed field are errors.
\<close>

definition prepend :: "string \<Rightarrow> exc + string \<Rightarrow> exc + string" where
  "prepend s r = (case r of Inl e \<Rightarrow> Inl e | Inr t \<Rightarrow> Inr (s @ t))"

fun format_scan :: "(string \<rightharpoonup> shown) \<Rightarrow> string option \<Rightarrow> string \<Rightarrow> exc + string" where
  "format_scan context None [] = Inr []"
| "format_scan context None [c] =
     (if c = CHR ''{'' then Inl (Exc ValueError ''Single { encountered in format string'')
      else if c = CHR ''}'' then Inl (Exc ValueError ''Single } encountered in format string'')
      else Inr [c])"
| "format_scan context None (c # c' # cs) =
     (if c = CHR ''{'' then
        (if c' = CHR ''{'' then prepend ''{'' (format_scan context None cs)
         else format_scan context (Some []) (c' # cs))
      else if c = CHR ''}'' then
        (if c' = CHR ''}'' then prepend ''}'' (format_scan context None cs)
         else Inl (Exc ValueError ''Single } encountered in format string''))
      else prepend [c] (format_scan context None (c' # cs)))"
| "format_scan context (Some acc) [] =
     Inl (Exc ValueError ''expected } before end of string'')"
| "format_scan context (Some acc) (c # cs) =
     (if c = CHR ''}'' then
        (case replace_field context (rev acc) of
           Inl e \<Rightarrow> Inl e
         | Inr s \<Rightarrow> prepend s (format_scan context None cs))
      else format_scan context (Some (c # acc)) cs)"

definition py_format :: "cval \<Rightarrow> (string \<rightharpoonup> shown) \<Rightarrow> exc + string" where
  "py_format t context =
     (case t of
        CStr s \<Rightarrow> format_scan context None s
      | _ \<Rightarrow> Inl (Exc AttributeError ''format''))"

text \<open>
  \<^verbatim>\<open>
  def __repr__(self):
      result = super(PrettyObject,self).__repr__()
      fields = getattr(self.__class__, '__pretty_fields__', None )
      if fields is None:
          fields = getattr(self.__class__, '__slots__', None )
      if fields:
          context = {}
          for name in fields:
              try:
                  value = repr(getattr(self,name,self._na))
              except Exception as exc:
                  value = exc
              context[name] = value
          result = result[:-1] + ' '
          result += self.get_pretty_fields().format(**context) + '>'
      return result
  \<close>
  \<open>result0\<close> is the default representation of the object, \<open>self\<close> tells what reading
  each attribute of the instance does.
\<close>

definition build_context :: "(string \<Rightarrow> access) \<Rightarrow> string list \<Rightarrow> (string \<rightharpoonup> shown)" where
  "build_context self ns = fold (\<lambda>name context. context(name \<mapsto> field_value (self name))) ns Map.empty"

definition pretty_repr ::
  "classes \<Rightarrow> string \<Rightarrow> string list \<Rightarrow> string \<Rightarrow> (string \<Rightarrow> access) \<Rightarrow> (exc + string) \<times> classes" where
  "pretty_repr cs c bases result0 self =
     (let fields0 = getattr_cls cs (c # bases) ''__pretty_fields__'' CNone;
          fields = (if fields0 = CNone then getattr_cls cs (c # bases) ''__slots__'' CNone
                    else fields0)
      in if ctruthy fields then
           (case iter_names fields of
              Inl e \<Rightarrow> (Inl e, cs)
            | Inr ns \<Rightarrow>
                (case get_pretty_fields cs c bases of
                   (Inl e, cs') \<Rightarrow> (Inl e, cs')
                 | (Inr t, cs') \<Rightarrow>
                     (case py_format t (build_context self ns) of
                        Inl e \<Rightarrow> (Inl e, cs')
                      | Inr s \<Rightarrow> (Inr (butlast result0 @ '' '' @ s @ ''>''), cs'))))
         else (Inr result0, cs))"

text \<open>
  A field name that \<open>format\<close> reads as a keyword: not empty, not a number, and free of
  braces and of the characters that start attribute, index, conversion or format syntax.
  Every Python identifier is one.
\<close>

definition field_name_ok :: "string \<Rightarrow> bool" where
  "field_name_ok n = (n \<noteq> [] \<and> plain_field n \<and> \<not> digits n)"

text \<open>
  The class declares the field list \<open>ns\<close>: as \<open>__pretty_fields__\<close>, or, with that
  attribute missing or \<open>None\<close>, as \<open>__slots__\<close>.
\<close>

definition declared_fields :: "classes \<Rightarrow> string list \<Rightarrow> string list \<Rightarrow> bool" where
  "declared_fields cs mro ns =
     (getattr_cls cs mro ''__pretty_fields__'' CNone = CList ns \<or>
      getattr_cls cs mro ''__pretty_fields__'' CNone = CNone \<and>
      getattr_cls cs mro ''__slots__'' CNone = CList ns)"

text \<open>
  The format template that a lookup on the class finds is either not there yet (missing
  or false) or the one built from the field list \<open>ns\<close>.
\<close>

definition template_current :: "classes \<Rightarrow> string list \<Rightarrow> string list \<Rightarrow> bool" where
  "template_current cs mro ns =
     (getattr_cls cs mro ''__pretty_field_format__'' CNone
        \<in> {CNone, CBool False, CStr [], CList [], CStr (join '', '' (map field_format ns))})"

text \<open>
  Example classes: \<open>Point\<close> declares the fields \<open>a\<close> and \<open>b\<close>; \<open>Bare\<close> declares
  nothing, like \<open>PrettyObject\<close> itself. In \<open>stale_classes\<close>, \<open>Point\<close> has its template
  cached and a subclass \<open>Sub\<close> of \<open>Point\<close> declares the one field \<open>c\<close>.
\<close>

definition example_classes :: classes where
  "example_classes =
     (\<lambda>c. Map.empty)(''Point'' := [''__pretty_fields__'' \<mapsto> CList [''a'', ''b'']])"

definition stale_classes :: classes where
  "stale_classes =
     (\<lambda>c. Map.empty)
       (''Point'' := [''__pretty_fields__'' \<mapsto> CList [''a'', ''b''],
                      ''__pretty_field_format__'' \<mapsto> CStr ''a={a}, b={b}''],
        ''Sub'' := [''__pretty_fields__'' \<mapsto> CList [''c'']])"

section \<open>qdict: regions of the store\<close>

text \<open>
  What holds between the store before and after a recursive, adding update, whatever is
  shared: the store has not shrunk, every object has kept its class and its keys, and an
  entry of a \<open>qdict\<close> that referred to a \<open>qdict\<close> still refers to the same object.
\<close>

definition grows :: "heap \<Rightarrow> heap \<Rightarrow> bool" where
  "grows h h' =
     (length h \<le> length h' \<and>
      (\<forall>a < length h.
         cls (h' ! a) = cls (h ! a) \<and> set (keys h a) \<subseteq> set (keys h' a) \<and>
         (cls (h ! a) = QDict \<longrightarrow>
            (\<forall>k c. getitem h a k = Some (VRef c) \<and> c < length h \<and> cls (h ! c) = QDict
               \<longrightarrow> getitem h' a k = Some (VRef c)))))"

text \<open>The same as a property of the method handed to the loops for the nested calls.\<close>

definition upd_grows :: "updater \<Rightarrow> bool" where
  "upd_grows upd =
     (\<forall>h c nv conv h'. upd h c nv True True conv = Inr h' \<longrightarrow> c < length h \<longrightarrow>
        cls (h ! c) = QDict \<longrightarrow> grows h h')"

text \<open>
  Regions of the store. \<open>R\<close> is a set of addresses. A value stays in \<open>R\<close> when it is no
  reference or refers into \<open>R\<close>; the entries of an object stay in \<open>R\<close> when all their
  values do; \<open>R\<close> is closed under references when the entries of each of its objects
  stay in it; and \<open>R\<close> holds every address not yet allocated (\<open>upper\<close>), so that new
  objects belong to it.
\<close>

definition refs_in :: "addr set \<Rightarrow> val \<Rightarrow> bool" where
  "refs_in R v = (case v of VRef c \<Rightarrow> c \<in> R | _ \<Rightarrow> True)"

definition entries_in :: "addr set \<Rightarrow> heap \<Rightarrow> addr \<Rightarrow> bool" where
  "entries_in R h a = (\<forall>p \<in> set (entries (h ! a)). refs_in R (snd p))"

definition closed_under :: "heap \<Rightarrow> addr set \<Rightarrow> bool" where
  "closed_under h R = (\<forall>a < length h. a \<in> R \<longrightarrow> entries_in R h a)"

definition upper :: "addr set \<Rightarrow> heap \<Rightarrow> bool" where
  "upper R h = (\<forall>a. length h \<le> a \<longrightarrow> a \<in> R)"

text \<open>
  A value of the source may be merged into the region: if it is a dictionary, the entries
  of that dictionary stay in \<open>R\<close> (they are copied into a new \<open>qdict\<close>), otherwise the
  value itself does. \<open>source_ok\<close> says so for every value of the source.
\<close>

definition val_ok :: "heap \<Rightarrow> addr set \<Rightarrow> val \<Rightarrow> bool" where
  "val_ok h R v =
     (case dyn_type h v of
        NotDict \<Rightarrow> refs_in R v
      | IsDict b \<Rightarrow> entries_in R h b
      | IsQDict b \<Rightarrow> entries_in R h b)"

definition source_ok :: "heap \<Rightarrow> addr set \<Rightarrow> addr \<Rightarrow> bool" where
  "source_ok h R src = (\<forall>p \<in> set (entries (h ! src)). val_ok h R (snd p))"

text \<open>Every object of the old store outside \<open>R\<close> is what it was.\<close>

definition frame :: "addr set \<Rightarrow> heap \<Rightarrow> heap \<Rightarrow> bool" where
  "frame R h h' = (\<forall>a < length h. a \<notin> R \<longrightarrow> h' ! a = h ! a)"

text \<open>
  The source of a nested call may be merged into the region: when it is a dictionary,
  \<open>source_ok\<close> holds of it. With it, the frame property of the method handed to the
  loops: called on a \<open>qdict\<close> of a closed region with such a source, it changes nothing
  outside the region and leaves the region closed.
\<close>

definition src_ok :: "heap \<Rightarrow> addr set \<Rightarrow> val \<Rightarrow> bool" where
  "src_ok h R nv =
     (case dyn_type h nv of
        NotDict \<Rightarrow> True
      | IsDict b \<Rightarrow> source_ok h R b
      | IsQDict b \<Rightarrow> source_ok h R b)"

definition upd_frames :: "addr set \<Rightarrow> updater \<Rightarrow> bool" where
  "upd_frames R upd =
     (\<forall>h c nv h'. upd h c nv True True True = Inr h' \<longrightarrow> c < length h \<longrightarrow>
        cls (h ! c) = QDict \<longrightarrow> c \<in> R \<longrightarrow> closed_under h R \<longrightarrow> upper R h \<longrightarrow> src_ok h R nv \<longrightarrow>
        frame R h h' \<and> closed_under h' R)"

text \<open>
  The receiver \<open>s\<close> and the source \<open>src\<close> are two objects that cannot be reached from
  the dictionaries nested in them: there is a region \<open>R\<close>, closed under references, that
  holds what the values of \<open>s\<close> refer to and what the dictionaries among the values of
  \<open>src\<close> refer to, but neither \<open>s\<close> nor \<open>src\<close>.
\<close>

definition separated :: "heap \<Rightarrow> addr set \<Rightarrow> addr \<Rightarrow> addr \<Rightarrow> bool" where
  "separated h R s src =
     (s \<notin> R \<and> src \<notin> R \<and> src \<noteq> s \<and> upper R h \<and> closed_under h R \<and> entries_in R h s \<and>
      source_ok h R src)"

text \<open>
  What the update does at a key \<open>k\<close> of the source whose value is a dictionary \<open>b\<close>.
  If \<open>k\<close> is new to the receiver, the receiver holds afterwards a \<open>qdict\<close> allocated by
  the call, with the keys of \<open>b\<close> (\<open>fresh_ok\<close>). If the receiver held a \<open>qdict\<close> \<open>c\<close>
  under \<open>k\<close>, then \<open>c\<close> has the keys of \<open>b\<close> afterwards (\<open>merged_ok\<close>).
\<close>

definition fresh_ok :: "heap \<Rightarrow> heap \<Rightarrow> addr \<Rightarrow> addr \<Rightarrow> string \<Rightarrow> bool" where
  "fresh_ok h h' s src k =
     (\<forall>b. getitem h s k = None \<and> getitem h src k = Some (VRef b) \<and> b < length h \<and>
          cls (h ! b) \<noteq> OtherObj \<longrightarrow>
        (\<exists>a. getitem h' s k = Some (VRef a) \<and> length h \<le> a \<and> a < length h' \<and>
             cls (h' ! a) = QDict \<and> set (keys h b) \<subseteq> set (keys h' a)))"

definition merged_ok :: "heap \<Rightarrow> heap \<Rightarrow> addr \<Rightarrow> addr \<Rightarrow> string \<Rightarrow> bool" where
  "merged_ok h h' s src k =
     (\<forall>c b. getitem h s k = Some (VRef c) \<and> c < length h \<and> cls (h ! c) = QDict \<and>
            getitem h src k = Some (VRef b) \<and> b < length h \<and> cls (h ! b) \<noteq> OtherObj \<longrightarrow>
        set (keys h b) \<subseteq> set (keys h' c))"

text \<open>
  Example stores. In \<open>store_nested\<close> the receiver \<open>{cfg: qdict{x: 1}}\<close> is at address 0
  and the plain source \<open>{cfg: {y: 2}, new: {z: 3}}\<close> at address 1;
  \<open>store_nested_after\<close> is the store after the converting recursive update. In
  \<open>store_alias\<close> the receiver at address 0 holds the source itself, \<open>{a: source}\<close>, and
  the source at address 1 is \<open>{a: {k: 5}, k: {}}\<close>; \<open>store_alias_after\<close> is the store
  after the same update.
\<close>

definition store_nested :: heap where
  "store_nested =
     [\<lparr>cls = QDict, entries = [(''cfg'', VRef 2)]\<rparr>,
      \<lparr>cls = PlainDict, entries = [(''cfg'', VRef 3), (''new'', VRef 4)]\<rparr>,
      \<lparr>cls = QDict, entries = [(''x'', VInt 1)]\<rparr>,
      \<lparr>cls = PlainDict, entries = [(''y'', VInt 2)]\<rparr>,
      \<lparr>cls = PlainDict, entries = [(''z'', VInt 3)]\<rparr>]"

definition store_nested_after :: heap where
  "store_nested_after =
     [\<lparr>cls = QDict, entries = [(''cfg'', VRef 2), (''new'', VRef 6)]\<rparr>,
      \<lparr>cls = PlainDict, entries = [(''cfg'', VRef 3), (''new'', VRef 4)]\<rparr>,
      \<lparr>cls = QDict, entries = [(''x'', VInt 1), (''y'', VInt 2)]\<rparr>,
      \<lparr>cls = PlainDict, entries = [(''y'', VInt 2)]\<rparr>,
      \<lparr>cls = PlainDict, entries = [(''z'', VInt 3)]\<rparr>,
      \<lparr>cls = QDict, entries = [(''y'', VInt 2)]\<rparr>,
      \<lparr>cls = QDict, entries = [(''z'', VInt 3)]\<rparr>]"

definition store_alias :: heap where
  "store_alias =
     [\<lparr>cls = QDict, entries = [(''a'', VRef 1)]\<rparr>,
      \<lparr>cls = QDict, entries = [(''a'', VRef 2), (''k'', VRef 3)]\<rparr>,
      \<lparr>cls = PlainDict, entries = [(''k'', VInt 5)]\<rparr>,
      \<lparr>cls = PlainDict, entries = []\<rparr>]"

definition store_alias_after :: heap where
  "store_alias_after =
     [\<lparr>cls = QDict, entries = [(''a'', VRef 1), (''k'', VInt 5)]\<rparr>,
      \<lparr>cls = QDict, entries = [(''a'', VRef 2), (''k'', VInt 5)]\<rparr>,
      \<lparr>cls = PlainDict, entries = [(''k'', VInt 5)]\<rparr>,
      \<lparr>cls = PlainDict, entries = []\<rparr>,
      \<lparr>cls = QDict, entries = [(''k'', VInt 5)]\<rparr>]"

section \<open>Properties of qlist\<close>

text \<open>
  C9. For every list \<open>s\<close>, integer index \<open>i\<close> and default \<open>d\<close> (of any value, \<open>None\<close>
  included), \<open>get(i, d)\<close> is the element \<open>s[i]\<close> when \<open>0 \<le> i < len(s)\<close> and is
  \<open>d\<close> itself in every other case, negative indices included. The function has no
  failing branch.
\<close>

theorem qlist_get_spec:
  "(0 \<le> i \<and> i < int (length s) \<longrightarrow> qlist_get s i d = s ! nat i) \<and>
   (\<not> (0 \<le> i \<and> i < int (length s)) \<longrightarrow> qlist_get s i d = d)"
  by (auto simp: qlist_get_def)

theorem qlist_get_spec_witness:
  "qlist_get [VInt 10, VInt 20, VInt 30] 1 VNone = VInt 20 \<and>
   qlist_get [VInt 10, VInt 20, VInt 30] (- 1) VNone = VNone \<and>
   qlist_get [VInt 10, VInt 20, VInt 30] 3 VNone = VNone"
  using qlist_get_spec [of 1 "[VInt 10, VInt 20, VInt 30]" VNone]
    qlist_get_spec [of "- 1" "[VInt 10, VInt 20, VInt 30]" VNone]
    qlist_get_spec [of 3 "[VInt 10, VInt 20, VInt 30]" VNone]
  by simp

section \<open>Properties of cachedproperty\<close>

lemma cached_read_hit:
  "\<not> uncached nm s \<Longrightarrow> snd (fget (cachedproperty args kwargs nm f) s) = s"
  by (simp add: cachedproperty_def cached_getter_def uncached_def Let_def)

lemma cached_reads_hit:
  "\<not> uncached nm s \<Longrightarrow> reads (cachedproperty args kwargs nm f) n s = s"
  by (induction n) (simp_all add: cached_read_hit)

lemma cached_read_miss:
  assumes "f (idict s) args kwargs = (Inr v, d)" and "uncached nm s"
  shows "snd (fget (cachedproperty args kwargs nm f) s)
         = \<lparr>idict = d(CHR ''_'' # nm \<mapsto> v), calls = Suc (calls s)\<rparr>"
  using assms
  by (simp add: cachedproperty_def cached_getter_def uncached_def Let_def setattr_def)

lemma cached_first_read:
  assumes "\<forall>d. \<exists>v d'. f d args kwargs = (Inr v, d') \<and> v \<noteq> VNone" and "uncached nm s"
  shows "calls (snd (fget (cachedproperty args kwargs nm f) s)) = Suc (calls s) \<and>
         \<not> uncached nm (snd (fget (cachedproperty args kwargs nm f) s))"
proof -
  from assms(1) obtain v d where fv: "f (idict s) args kwargs = (Inr v, d)" and v: "v \<noteq> VNone"
    by blast
  show ?thesis
    using v cached_read_miss [where f = f and s = s and nm = nm, OF fv assms(2)]
    by (simp add: uncached_def getattr3_def)
qed

lemma cached_reads_once:
  assumes "\<forall>d. \<exists>v d'. f d args kwargs = (Inr v, d') \<and> v \<noteq> VNone" and "uncached nm s"
  shows "calls (reads (cachedproperty args kwargs nm f) (Suc n) s) = Suc (calls s) \<and>
         \<not> uncached nm (reads (cachedproperty args kwargs nm f) (Suc n) s)"
  using cached_first_read [where f = f and s = s and nm = nm, OF assms]
  by (simp add: cached_reads_hit)

lemma cached_deleter_uncached: "uncached nm (fdel (cachedproperty args kwargs nm f) s)"
  by (simp add: cachedproperty_def cached_deleter_def uncached_def setattr_def getattr3_def)

lemma cached_deleter_calls: "calls (fdel (cachedproperty args kwargs nm f) s) = calls s"
  by (simp add: cachedproperty_def cached_deleter_def setattr_def)

lemma cached_reads_none:
  assumes "\<forall>d. \<exists>d'. f d args kwargs = (Inr VNone, d')"
  shows "uncached nm s \<Longrightarrow>
         calls (reads (cachedproperty args kwargs nm f) n s) = calls s + n \<and>
         uncached nm (reads (cachedproperty args kwargs nm f) n s)"
proof (induction n arbitrary: s)
  case 0
  then show ?case by simp
next
  case (Suc n)
  from assms obtain d where fv: "f (idict s) args kwargs = (Inr VNone, d)" by blast
  let ?s = "\<lparr>idict = d(CHR ''_'' # nm \<mapsto> VNone), calls = Suc (calls s)\<rparr>"
  have "uncached nm ?s" by (simp add: uncached_def getattr3_def)
  from Suc.IH [OF this] show ?case
    using cached_read_miss [where f = f and s = s and nm = nm, OF fv Suc.prems] by simp
qed

text \<open>
  C2, as stated, fails: a computation that raises never returns \<open>None\<close>, and the getter
  stores nothing when it raises, so each of two consecutive reads on a fresh instance
  invokes it.
\<close>

theorem cachedproperty_raising_counterexample:
  "fst (fget (cachedproperty [] [] ''size'' raising_computation)
          \<lparr>idict = Map.empty, calls = 0\<rparr>) = Inl (Exc ValueError ''boom'') \<and>
   calls (reads (cachedproperty [] [] ''size'' raising_computation) (Suc (Suc 0))
            \<lparr>idict = Map.empty, calls = 0\<rparr>) = 2 \<and>
   calls (reads (cachedproperty [] [] ''size'' raising_computation) (Suc (Suc 0))
            \<lparr>idict = Map.empty, calls = 0\<rparr>) \<noteq> 1"
  by (simp add: cachedproperty_def cached_getter_def raising_computation_def getattr3_def)

text \<open>
  C2, amended. Let the wrapped computation always return normally, with a value other
  than \<open>None\<close>. Starting with nothing cached, any number \<open>n + 1\<close> of consecutive reads
  of the property on one instance invokes the computation exactly once; after a delete,
  any number \<open>m + 1\<close> of further reads invokes it exactly one more time. A computation
  that always returns \<open>None\<close> is instead invoked by every one of \<open>n\<close> consecutive reads.
\<close>

theorem cachedproperty_computes_once:
  "((\<forall>d. \<exists>v d'. f d args kwargs = (Inr v, d') \<and> v \<noteq> VNone) \<and> uncached nm s \<longrightarrow>
      calls (reads (cachedproperty args kwargs nm f) (Suc n) s) = calls s + 1 \<and>
      calls (reads (cachedproperty args kwargs nm f) (Suc m)
               (fdel (cachedproperty args kwargs nm f)
                  (reads (cachedproperty args kwargs nm f) (Suc n) s))) = calls s + 2) \<and>
   ((\<forall>d. \<exists>d'. g d args kwargs = (Inr VNone, d')) \<and> uncached nm s \<longrightarrow>
      calls (reads (cachedproperty args kwargs nm g) n s) = calls s + n)"
proof (intro conjI impI)
  assume a: "(\<forall>d. \<exists>v d'. f d args kwargs = (Inr v, d') \<and> v \<noteq> VNone) \<and> uncached nm s"
  then have f: "\<forall>d. \<exists>v d'. f d args kwargs = (Inr v, d') \<and> v \<noteq> VNone" and u: "uncached nm s"
    by blast+
  let ?P = "cachedproperty args kwargs nm f"
  show once: "calls (reads ?P (Suc n) s) = calls s + 1"
    using cached_reads_once [where f = f and s = s and nm = nm and n = n, OF f u] by simp
  have "calls (reads ?P (Suc m) (fdel ?P (reads ?P (Suc n) s)))
        = Suc (calls (fdel ?P (reads ?P (Suc n) s)))"
    using cached_reads_once [where f = f and s = "fdel ?P (reads ?P (Suc n) s)" and nm = nm
        and n = m, OF f cached_deleter_uncached]
    by blast
  then show "calls (reads ?P (Suc m) (fdel ?P (reads ?P (Suc n) s))) = calls s + 2"
    using once by (simp add: cached_deleter_calls)
next
  assume "(\<forall>d. \<exists>d'. g d args kwargs = (Inr VNone, d')) \<and> uncached nm s"
  then show "calls (reads (cachedproperty args kwargs nm g) n s) = calls s + n"
    using cached_reads_none [of g args kwargs nm s n] by blast
qed

text \<open>
  The witness: a computation that returns 7 and one that returns \<open>None\<close>, on a fresh
  instance; three reads, a delete and two more reads make two calls, two reads of the
  \<open>None\<close> computation make two.
\<close>

theorem cachedproperty_computes_once_witness:
  "calls (reads (cachedproperty [] [] ''size'' (\<lambda>d a k. (Inr (VInt 7), d))) (Suc 2)
            \<lparr>idict = Map.empty, calls = 0\<rparr>) = 1 \<and>
   calls (reads (cachedproperty [] [] ''size'' (\<lambda>d a k. (Inr (VInt 7), d))) (Suc 1)
            (fdel (cachedproperty [] [] ''size'' (\<lambda>d a k. (Inr (VInt 7), d)))
               (reads (cachedproperty [] [] ''size'' (\<lambda>d a k. (Inr (VInt 7), d))) (Suc 2)
                  \<lparr>idict = Map.empty, calls = 0\<rparr>))) = 2 \<and>
   calls (reads (cachedproperty [] [] ''size'' (\<lambda>d a k. (Inr VNone, d))) 2
            \<lparr>idict = Map.empty, calls = 0\<rparr>) = 2"
  using cachedproperty_computes_once [where f = "\<lambda>d a k. (Inr (VInt 7), d)" and args = "[]"
      and kwargs = "[]" and nm = "''size''" and s = "\<lparr>idict = Map.empty, calls = 0\<rparr>"
      and n = 2 and m = 1 and g = "\<lambda>d a k. (Inr VNone, d)"]
  by (simp add: uncached_def getattr3_def)


section \<open>Properties of weakproperty\<close>



section \<open>Properties of qdict: attribute access\<close>

text \<open>
  C1, as stated, fails: on the empty mapping \<open>d.update\<close> is the method of the class, not
  the missing-attribute error, and with an entry \<open>copy\<close> in the mapping \<open>d.copy\<close> is
  still the method, not the entry.
\<close>

theorem qdict_attribute_read_counterexample:
  "attribute_read [] Map.empty [] [] ''update'' = Inr (Bound ''update'') \<and>
   attribute_read [] Map.empty [] [] ''update'' \<noteq> Inl (Exc AttributeError ''update'') \<and>
   map_of [(''copy'', VInt 1)] ''copy'' = Some (VInt 1) \<and>
   attribute_read [] Map.empty [] [(''copy'', VInt 1)] ''copy'' \<noteq> Inr (Item (VInt 1))"
  by (simp add: attribute_read_def qdict_class_names_def qdict_class_descr_def)

text \<open>
  C1, amended. For a name \<open>k\<close> that the ordinary lookup does not resolve (no attribute of
  \<open>qdict\<close>, \<open>dict\<close> or \<open>object\<close>, no entry of the instance's \<open>__dict__\<close>), reading
  \<open>d.k\<close> is the item lookup: \<open>d[k]\<close> when \<open>k\<close> is a key, the missing-attribute error
  carrying \<open>k\<close> when it is not. For a name the ordinary lookup resolves, \<open>d.k\<close> is what
  that lookup finds, whatever the mapping holds under \<open>k\<close>: the class's attribute for a
  data descriptor, else the entry of the instance's \<open>__dict__\<close>, else the class's
  attribute.
\<close>

theorem qdict_attribute_read_spec:
  "(k \<notin> set qdict_class_descr \<and> k \<notin> set descr \<and> instdict k = None \<and>
    k \<notin> set qdict_class_names \<and> k \<notin> set inherited \<longrightarrow>
      attribute_read descr instdict inherited d k =
        (case map_of d k of
           Some v \<Rightarrow> Inr (Item v)
         | None \<Rightarrow> Inl (Exc AttributeError k))) \<and>
   (k \<in> set qdict_class_descr \<or> k \<in> set descr \<longrightarrow>
      attribute_read descr instdict inherited d k = Inr (Bound k)) \<and>
   (k \<notin> set qdict_class_descr \<and> k \<notin> set descr \<and> instdict k = Some w \<longrightarrow>
      attribute_read descr instdict inherited d k = Inr (Item w)) \<and>
   (k \<notin> set qdict_class_descr \<and> k \<notin> set descr \<and> instdict k = None \<and>
    (k \<in> set qdict_class_names \<or> k \<in> set inherited) \<longrightarrow>
      attribute_read descr instdict inherited d k = Inr (Bound k))"
  by (auto simp: attribute_read_def qdict_getattr_def split: option.splits)

text \<open>
  The witness: the mapping \<open>{a: 'some', keys: 1, x: 2}\<close> on an instance whose
  \<open>__dict__\<close> holds \<open>x\<close>. \<open>a\<close> and \<open>c\<close> are not resolved by the ordinary lookup;
  \<open>__dict__\<close>, \<open>__class__\<close>, \<open>x\<close>, \<open>__module__\<close>, \<open>update\<close> and \<open>keys\<close> are.
\<close>

theorem qdict_attribute_read_spec_witness:
  "attribute_read [''__class__''] [''x'' \<mapsto> VInt 7] [''keys'', ''get'']
     [(''a'', VStr ''some''), (''keys'', VInt 1), (''x'', VInt 2)] ''a''
     = Inr (Item (VStr ''some'')) \<and>
   attribute_read [''__class__''] [''x'' \<mapsto> VInt 7] [''keys'', ''get'']
     [(''a'', VStr ''some''), (''keys'', VInt 1), (''x'', VInt 2)] ''c''
     = Inl (Exc AttributeError ''c'') \<and>
   attribute_read [''__class__''] [''x'' \<mapsto> VInt 7] [''keys'', ''get'']
     [(''a'', VStr ''some''), (''keys'', VInt 1), (''x'', VInt 2)] ''__dict__''
     = Inr (Bound ''__dict__'') \<and>
   attribute_read [''__class__''] [''x'' \<mapsto> VInt 7] [''keys'', ''get'']
     [(''a'', VStr ''some''), (''keys'', VInt 1), (''x'', VInt 2)] ''__class__''
     = Inr (Bound ''__class__'') \<and>
   attribute_read [''__class__''] [''x'' \<mapsto> VInt 7] [''keys'', ''get'']
     [(''a'', VStr ''some''), (''keys'', VInt 1), (''x'', VInt 2)] ''x''
     = Inr (Item (VInt 7)) \<and>
   attribute_read [''__class__''] [''x'' \<mapsto> VInt 7] [''keys'', ''get'']
     [(''a'', VStr ''some''), (''keys'', VInt 1), (''x'', VInt 2)] ''__module__''
     = Inr (Bound ''__module__'') \<and>
   attribute_read [''__class__''] [''x'' \<mapsto> VInt 7] [''keys'', ''get'']
     [(''a'', VStr ''some''), (''keys'', VInt 1), (''x'', VInt 2)] ''update''
     = Inr (Bound ''update'') \<and>
   attribute_read [''__class__''] [''x'' \<mapsto> VInt 7] [''keys'', ''get'']
     [(''a'', VStr ''some''), (''keys'', VInt 1), (''x'', VInt 2)] ''keys''
     = Inr (Bound ''keys'')"
  using qdict_attribute_read_spec [where k = "''a''" and descr = "[''__class__'']"
      and instdict = "[''x'' \<mapsto> VInt 7]" and inherited = "[''keys'', ''get'']"
      and d = "[(''a'', VStr ''some''), (''keys'', VInt 1), (''x'', VInt 2)]"]
    qdict_attribute_read_spec [where k = "''c''" and descr = "[''__class__'']"
      and instdict = "[''x'' \<mapsto> VInt 7]" and inherited = "[''keys'', ''get'']"
      and d = "[(''a'', VStr ''some''), (''keys'', VInt 1), (''x'', VInt 2)]"]
    qdict_attribute_read_spec [where k = "''__dict__''" and descr = "[''__class__'']"
      and instdict = "[''x'' \<mapsto> VInt 7]" and inherited = "[''keys'', ''get'']"
      and d = "[(''a'', VStr ''some''), (''keys'', VInt 1), (''x'', VInt 2)]"]
    qdict_attribute_read_spec [where k = "''__class__''" and descr = "[''__class__'']"
      and instdict = "[''x'' \<mapsto> VInt 7]" and inherited = "[''keys'', ''get'']"
      and d = "[(''a'', VStr ''some''), (''keys'', VInt 1), (''x'', VInt 2)]"]
    qdict_attribute_read_spec [where k = "''x''" and descr = "[''__class__'']"
      and instdict = "[''x'' \<mapsto> VInt 7]" and inherited = "[''keys'', ''get'']"
      and d = "[(''a'', VStr ''some''), (''keys'', VInt 1), (''x'', VInt 2)]" and w = "VInt 7"]
    qdict_attribute_read_spec [where k = "''__module__''" and descr = "[''__class__'']"
      and instdict = "[''x'' \<mapsto> VInt 7]" and inherited = "[''keys'', ''get'']"
      and d = "[(''a'', VStr ''some''), (''keys'', VInt 1), (''x'', VInt 2)]"]
    qdict_attribute_read_spec [where k = "''update''" and descr = "[''__class__'']"
      and instdict = "[''x'' \<mapsto> VInt 7]" and inherited = "[''keys'', ''get'']"
      and d = "[(''a'', VStr ''some''), (''keys'', VInt 1), (''x'', VInt 2)]"]
    qdict_attribute_read_spec [where k = "''keys''" and descr = "[''__class__'']"
      and instdict = "[''x'' \<mapsto> VInt 7]" and inherited = "[''keys'', ''get'']"
      and d = "[(''a'', VStr ''some''), (''keys'', VInt 1), (''x'', VInt 2)]"]
  by (simp add: qdict_class_names_def qdict_class_descr_def)

section \<open>Properties of qdict: addition and the update of known keys\<close>

lemma map_of_merge_entries:
  "distinct (map fst xs) \<Longrightarrow> map_of (merge_entries xs ys) = map_of ys ++ map_of xs"
proof (induction xs arbitrary: ys)
  case Nil
  then show ?case by (simp add: merge_entries_def)
next
  case (Cons x xs)
  obtain k v where x: "x = (k, v)" by (cases x)
  from Cons.prems x have k: "k \<notin> fst ` set xs" and d: "distinct (map fst xs)" by auto
  have "map_of (merge_entries (x # xs) ys) = map_of (merge_entries xs (AList.update k v ys))"
    by (simp add: merge_entries_def x)
  also have "\<dots> = (map_of ys)(k \<mapsto> v) ++ map_of xs"
    by (simp only: Cons.IH [OF d] AList.update_conv')
  also have "\<dots> = map_of ys ++ map_of (x # xs)"
    using k by (simp add: x map_add_upd_left dom_map_of_conv_image_fst)
  finally show ?case .
qed

lemma distinct_merge_entries:
  "distinct (map fst ys) \<Longrightarrow> distinct (map fst (merge_entries xs ys))"
  by (induction xs arbitrary: ys) (auto simp: merge_entries_def AList.distinct_update)

lemma merge_entries_Nil [simp]: "merge_entries [] ys = ys"
  by (simp add: merge_entries_def)

lemma wf_heap_nth: "wf_heap h \<Longrightarrow> a < length h \<Longrightarrow> distinct (map fst (entries (h ! a)))"
  by (simp add: wf_heap_def list_all_length)

lemma qdict_add_store:
  assumes "a < length h" and "b < length h" and "cls (h ! a) = QDict" and "cls (h ! b) = QDict"
  shows "qdict_add (Suc (Suc (Suc d))) h a (VRef b)
         = Inr (h @ [\<lparr>cls = QDict,
                      entries = merge_entries (entries (h ! b)) (merge_entries (entries (h ! a)) [])\<rparr>],
                length h)"
  using assms
  by (simp add: new_qdict_def update_from_def dict_update_def dyn_type_def truthy_def
      nth_append list_update_append)


lemma dyn_type_IsQDict [simp]:
  "dyn_type h v = IsQDict a \<longleftrightarrow> v = VRef a \<and> a < length h \<and> cls (h ! a) = QDict"
  by (auto simp: dyn_type_def split: val.splits pycls.splits)

lemma dyn_type_IsDict [simp]:
  "dyn_type h v = IsDict a \<longleftrightarrow> v = VRef a \<and> a < length h \<and> cls (h ! a) = PlainDict"
  by (auto simp: dyn_type_def split: val.splits pycls.splits)

lemma heap_update_same: "a < length h \<Longrightarrow> h[a := (h ! a)\<lparr>entries := entries (h ! a)\<rparr>] = h"
  by (simp add: list_update_same_conv)

lemma overwrite_known_self:
  "a < length h \<Longrightarrow> set ks \<subseteq> set (keys h a) \<Longrightarrow> overwrite_known h a a ks = Inr h"
proof (induction ks)
  case Nil
  then show ?case by simp
next
  case (Cons k ks)
  then have "map_of (entries (h ! a)) k \<noteq> None"
    by (simp add: keys_def map_of_eq_None_iff)
  then obtain v where v: "map_of (entries (h ! a)) k = Some v"
    by auto
  then have "setitem h a k v = h"
    using Cons.prems(1) by (simp add: setitem_def AList.update_triv heap_update_same)
  with Cons v show ?case by (simp add: getitem_def)
qed

lemma update_append_fresh:
  "k \<notin> fst ` set pre \<Longrightarrow> AList.update k v' (pre @ (k, v) # post) = pre @ (k, v') # post"
  by (induction pre) auto

lemma map_of_append_fresh:
  "k \<notin> fst ` set pre \<Longrightarrow> map_of (pre @ (k, v) # post) k = Some v"
  by (induction pre) auto

lemma overwrite_known_other:
  assumes "a < length h" and "src \<noteq> a"
    and "entries (h ! a) = pre @ post" and "distinct (map fst (pre @ post))"
  shows "overwrite_known h a src (map fst post)
         = Inr (h[a := (h ! a)\<lparr>entries := pre @
                   map (\<lambda>(k, v). (k, case getitem h src k of None \<Rightarrow> v | Some w \<Rightarrow> w)) post\<rparr>])"
  using assms
proof (induction post arbitrary: h pre)
  case Nil
  from Nil.prems(3) [symmetric] Nil.prems(1) show ?case
    by (simp add: list_update_same_conv)
next
  case (Cons p post)
  obtain k v where p: "p = (k, v)" by (cases p)
  let ?w = "case getitem h src k of None \<Rightarrow> v | Some w \<Rightarrow> w"
  let ?h = "setitem h a k ?w"
  from Cons.prems p have fresh: "k \<notin> fst ` set pre" by auto
  have cur: "getitem h a k = Some v"
    unfolding getitem_def Cons.prems(3) p using fresh by (rule map_of_append_fresh)
  have ent: "entries (?h ! a) = (pre @ [(k, ?w)]) @ post"
    using Cons.prems(1,3) fresh by (simp add: setitem_def p update_append_fresh)
  have dist: "distinct (map fst ((pre @ [(k, ?w)]) @ post))"
    using Cons.prems(4) by (simp add: p)
  have len: "a < length ?h" using Cons.prems(1) by (simp add: setitem_def)
  have same: "getitem ?h src = getitem h src"
    using Cons.prems(2) by (simp add: getitem_def setitem_def fun_eq_iff)
  have "overwrite_known h a src (map fst (p # post)) = overwrite_known ?h a src (map fst post)"
    by (simp add: p cur)
  also have "\<dots> = Inr (?h[a := (?h ! a)\<lparr>entries := (pre @ [(k, ?w)]) @
        map (\<lambda>(k, v). (k, case getitem ?h src k of None \<Rightarrow> v | Some w \<Rightarrow> w)) post\<rparr>])"
    by (rule Cons.IH [OF len Cons.prems(2) ent dist])
  also have "\<dots> = Inr (h[a := (h ! a)\<lparr>entries := pre @
        map (\<lambda>(k, v). (k, case getitem h src k of None \<Rightarrow> v | Some w \<Rightarrow> w)) (p # post)\<rparr>])"
    unfolding same using Cons.prems(1) by (simp add: p setitem_def)
  finally show ?case .
qed

lemma overwrite_self_map:
  assumes "distinct (map fst es)"
  shows "map (\<lambda>(k, v). (k, case map_of es k of None \<Rightarrow> v | Some w \<Rightarrow> w)) es = es"
proof -
  have "\<And>k v. (k, v) \<in> set es \<Longrightarrow> map_of es k = Some v"
    using assms by simp
  then have "map (\<lambda>(k, v). (k, case map_of es k of None \<Rightarrow> v | Some w \<Rightarrow> w)) es = map id es"
    by (intro map_cong) auto
  then show ?thesis by simp
qed

lemma update_known_keys:
  assumes "a < length h" and "dyn_type h (VRef src) \<noteq> NotDict" and "wf_heap h"
  shows "qdict_update (Suc d) h a (VRef src) False False conv
         = Inr (h[a := (h ! a)\<lparr>entries :=
                   map (\<lambda>(k, v). (k, case getitem h src k of None \<Rightarrow> v | Some w \<Rightarrow> w))
                     (entries (h ! a))\<rparr>], VRef a)"
proof (cases "src = a")
  case True
  have "overwrite_known h a a (keys h a) = Inr h"
    using assms(1) by (simp add: overwrite_known_self)
  moreover have "map (\<lambda>(k, v). (k, case getitem h a k of None \<Rightarrow> v | Some w \<Rightarrow> w)) (entries (h ! a))
      = entries (h ! a)"
    unfolding getitem_def using wf_heap_nth [OF assms(3,1)] by (rule overwrite_self_map)
  ultimately show ?thesis
    using assms(1,2) True
    by (simp add: qdict_update_def update_from_def list_update_same_conv split: dyn.splits)
next
  case False
  have "overwrite_known h a src (keys h a) = Inr (h[a := (h ! a)\<lparr>entries := [] @
        map (\<lambda>(k, v). (k, case getitem h src k of None \<Rightarrow> v | Some w \<Rightarrow> w)) (entries (h ! a))\<rparr>])"
    unfolding keys_def
    using wf_heap_nth [OF assms(3,1)]
    by (intro overwrite_known_other [OF assms(1) False]) simp_all
  then show ?thesis
    using assms(2) by (simp add: qdict_update_def update_from_def split: dyn.splits)
qed

lemma map_of_map_values:
  "map_of (map (\<lambda>(k, v). (k, f k v)) es) k = map_option (f k) (map_of es k)"
  by (induction es) auto

text \<open>
  C8. Let \<open>d1\<close> and \<open>d2\<close> be attribute mappings at the addresses \<open>a\<close> and \<open>b\<close> of a store
  \<open>h\<close>, with three frames available. Then \<open>d1 + d2\<close> returns normally. The store
  afterwards is \<open>h\<close> with one object appended, so every object of \<open>h\<close>, \<open>d1\<close> and \<open>d2\<close>
  among them, is what it was; the result is that new object, an attribute mapping whose
  entries are those of \<open>d1\<close> overwritten by those of \<open>d2\<close>.
\<close>

theorem qdict_add_spec:
  "a < length h \<and> b < length h \<and> cls (h ! a) = QDict \<and> cls (h ! b) = QDict \<and> wf_heap h \<longrightarrow>
     (\<exists>r. qdict_add (Suc (Suc (Suc d))) h a (VRef b) = Inr (h @ [r], length h) \<and>
          cls r = QDict \<and> distinct (map fst (entries r)) \<and>
          map_of (entries r) = map_of (entries (h ! a)) ++ map_of (entries (h ! b)))"
proof (intro impI, elim conjE)
  assume a: "a < length h" and b: "b < length h" and ca: "cls (h ! a) = QDict"
    and cb: "cls (h ! b) = QDict" and wf: "wf_heap h"
  let ?r = "\<lparr>cls = QDict,
      entries = merge_entries (entries (h ! b)) (merge_entries (entries (h ! a)) [])\<rparr>"
  have "qdict_add (Suc (Suc (Suc d))) h a (VRef b) = Inr (h @ [?r], length h)"
    using a b ca cb by (rule qdict_add_store)
  moreover have "distinct (map fst (entries ?r))"
    by (simp add: distinct_merge_entries)
  moreover have "map_of (entries ?r) = map_of (entries (h ! a)) ++ map_of (entries (h ! b))"
    by (simp add: map_of_merge_entries wf_heap_nth [OF wf a] wf_heap_nth [OF wf b])
  ultimately show "\<exists>r. qdict_add (Suc (Suc (Suc d))) h a (VRef b) = Inr (h @ [r], length h) \<and>
      cls r = QDict \<and> distinct (map fst (entries r)) \<and>
      map_of (entries r) = map_of (entries (h ! a)) ++ map_of (entries (h ! b))"
    by (intro exI [of _ ?r]) simp
qed

text \<open>The witness: \<open>{a: 1, b: 2} + {b: 3, c: 4}\<close> in the store of the two.\<close>

theorem qdict_add_spec_witness:
  "\<exists>r. qdict_add (Suc (Suc (Suc 0))) store_ab 0 (VRef 1) = Inr (store_ab @ [r], length store_ab) \<and>
        cls r = QDict \<and> distinct (map fst (entries r)) \<and>
        map_of (entries r) = map_of (entries (store_ab ! 0)) ++ map_of (entries (store_ab ! 1))"
proof -
  have "0 < length store_ab \<and> 1 < length store_ab \<and> cls (store_ab ! 0) = QDict \<and>
        cls (store_ab ! 1) = QDict \<and> wf_heap store_ab"
    by (simp add: store_ab_def wf_heap_def)
  then show ?thesis
    by (rule mp [OF qdict_add_spec [of 0 store_ab 1 0]])
qed

text \<open>
  C6. Let \<open>d\<close> be an attribute mapping at address \<open>a\<close> and \<open>source\<close> a dictionary of the
  store, with one frame available. Then \<open>d.update(source, False, False)\<close> returns
  normally and returns \<open>d\<close> itself. In the store afterwards every other object is what it
  was, and \<open>d\<close> has the keys it had, in the same order: no key is added, whatever the
  source holds. A key of \<open>d\<close> that the source has carries the source's value, a key the
  source lacks keeps its value.
\<close>

theorem qdict_update_known_keys:
  "a < length h \<and> cls (h ! a) = QDict \<and> dyn_type h (VRef src) \<noteq> NotDict \<and> wf_heap h \<longrightarrow>
     (\<exists>h'. qdict_update (Suc d) h a (VRef src) False False conv = Inr (h', VRef a) \<and>
           length h' = length h \<and> (\<forall>c. c \<noteq> a \<longrightarrow> h' ! c = h ! c) \<and>
           cls (h' ! a) = QDict \<and> keys h' a = keys h a \<and>
           (\<forall>k. getitem h' a k =
                  (case getitem h a k of
                     None \<Rightarrow> None
                   | Some v \<Rightarrow> (case getitem h src k of None \<Rightarrow> Some v | Some w \<Rightarrow> Some w))))"
proof (intro impI, elim conjE)
  assume a: "a < length h" and ca: "cls (h ! a) = QDict"
    and src: "dyn_type h (VRef src) \<noteq> NotDict" and wf: "wf_heap h"
  let ?es = "map (\<lambda>(k, v). (k, case getitem h src k of None \<Rightarrow> v | Some w \<Rightarrow> w)) (entries (h ! a))"
  let ?h = "h[a := (h ! a)\<lparr>entries := ?es\<rparr>]"
  have run: "qdict_update (Suc d) h a (VRef src) False False conv = Inr (?h, VRef a)"
    using a src wf by (rule update_known_keys)
  have other: "\<forall>c. c \<noteq> a \<longrightarrow> ?h ! c = h ! c" by simp
  have cls: "cls (?h ! a) = QDict" using a ca by simp
  have ks: "keys ?h a = keys h a"
    using a by (simp add: keys_def comp_def case_prod_unfold)
  have vals: "\<forall>k. getitem ?h a k =
      (case getitem h a k of
         None \<Rightarrow> None
       | Some v \<Rightarrow> (case getitem h src k of None \<Rightarrow> Some v | Some w \<Rightarrow> Some w))"
    using a by (simp add: getitem_def map_of_map_values split: option.splits)
  show "\<exists>h'. qdict_update (Suc d) h a (VRef src) False False conv = Inr (h', VRef a) \<and>
      length h' = length h \<and> (\<forall>c. c \<noteq> a \<longrightarrow> h' ! c = h ! c) \<and>
      cls (h' ! a) = QDict \<and> keys h' a = keys h a \<and>
      (\<forall>k. getitem h' a k =
             (case getitem h a k of
                None \<Rightarrow> None
              | Some v \<Rightarrow> (case getitem h src k of None \<Rightarrow> Some v | Some w \<Rightarrow> Some w)))"
    using run other cls ks vals by (intro exI [of _ ?h]) simp
qed

text \<open>
  The witness: \<open>{a: 1, b: 2}\<close> updated from the plain dictionary \<open>{b: 3, c: 4}\<close>.
\<close>

theorem qdict_update_known_keys_witness:
  "\<exists>h'. qdict_update (Suc 0) store_ab_plain 0 (VRef 1) False False False = Inr (h', VRef 0) \<and>
         length h' = length store_ab_plain \<and> (\<forall>c. c \<noteq> 0 \<longrightarrow> h' ! c = store_ab_plain ! c) \<and>
         cls (h' ! 0) = QDict \<and> keys h' 0 = keys store_ab_plain 0 \<and>
         (\<forall>k. getitem h' 0 k =
                (case getitem store_ab_plain 0 k of
                   None \<Rightarrow> None
                 | Some v \<Rightarrow>
                     (case getitem store_ab_plain 1 k of None \<Rightarrow> Some v | Some w \<Rightarrow> Some w)))"
proof -
  have "0 < length store_ab_plain \<and> cls (store_ab_plain ! 0) = QDict \<and>
        dyn_type store_ab_plain (VRef 1) \<noteq> NotDict \<and> wf_heap store_ab_plain"
    by (simp add: store_ab_plain_def wf_heap_def dyn_type_def)
  then show ?thesis
    by (rule mp [OF qdict_update_known_keys [of 0 store_ab_plain 1 0 False]])
qed

section \<open>Properties of PrettyObject\<close>

lemma prepend_Inr [simp]: "prepend s (Inr t) = Inr (s @ t)"
  by (simp add: prepend_def)

lemma prepend_Inl [simp]: "prepend s (Inl e) = Inl e"
  by (simp add: prepend_def)

lemma prepend_prepend [simp]: "prepend s (prepend t r) = prepend (s @ t) r"
  by (cases r) simp_all

lemma prepend_Nil [simp]: "prepend [] r = r"
  by (cases r) simp_all

lemma format_scan_literal_char:
  "c \<noteq> CHR ''{'' \<Longrightarrow> c \<noteq> CHR ''}'' \<Longrightarrow>
   format_scan ctx None (c # cs) = prepend [c] (format_scan ctx None cs)"
  by (cases cs) simp_all

lemma format_scan_literal:
  "list_all (\<lambda>c. c \<noteq> CHR ''{'' \<and> c \<noteq> CHR ''}'') s \<Longrightarrow>
   format_scan ctx None (s @ rest) = prepend s (format_scan ctx None rest)"
  by (induction s) (simp_all add: format_scan_literal_char)

lemma format_scan_field:
  "CHR ''}'' \<notin> set f \<Longrightarrow>
   format_scan ctx (Some acc) (f @ CHR ''}'' # rest) =
     (case replace_field ctx (rev acc @ f) of
        Inl e \<Rightarrow> Inl e
      | Inr s \<Rightarrow> prepend s (format_scan ctx None rest))"
  by (induction f arbitrary: acc) auto

lemma plain_field_no_brace:
  "plain_field n \<Longrightarrow> list_all (\<lambda>c. c \<noteq> CHR ''{'' \<and> c \<noteq> CHR ''}'') n"
  by (induction n) (simp_all add: plain_field_def)

lemma plain_field_no_close: "plain_field n \<Longrightarrow> CHR ''}'' \<notin> set n"
  by (induction n) (auto simp: plain_field_def)

lemma format_scan_open:
  "n \<noteq> [] \<Longrightarrow> plain_field n \<Longrightarrow>
   format_scan ctx None (CHR ''{'' # n @ rest) = format_scan ctx (Some []) (n @ rest)"
  by (cases n) (simp_all add: plain_field_def)

lemma format_scan_field_format:
  assumes "field_name_ok n" and "ctx n = Some v"
  shows "format_scan ctx None (field_format n @ rest)
         = prepend (n @ ''='' @ render v) (format_scan ctx None rest)"
proof -
  from assms(1) have ne: "n \<noteq> []" and pl: "plain_field n" and nd: "\<not> digits n"
    by (simp_all add: field_name_ok_def)
  have lit: "list_all (\<lambda>c. c \<noteq> CHR ''{'' \<and> c \<noteq> CHR ''}'') (n @ ''='')"
    using plain_field_no_brace [OF pl] by simp
  have "format_scan ctx None (field_format n @ rest)
        = format_scan ctx None ((n @ ''='') @ CHR ''{'' # n @ CHR ''}'' # rest)"
    by (simp add: field_format_def)
  also have "\<dots> = prepend (n @ ''='') (format_scan ctx None (CHR ''{'' # n @ CHR ''}'' # rest))"
    by (rule format_scan_literal [OF lit])
  also have "format_scan ctx None (CHR ''{'' # n @ CHR ''}'' # rest)
             = format_scan ctx (Some []) (n @ CHR ''}'' # rest)"
    by (rule format_scan_open [OF ne pl])
  also have "\<dots> = prepend (render v) (format_scan ctx None rest)"
    using pl nd assms(2)
    by (simp add: format_scan_field [OF plain_field_no_close [OF pl]] replace_field_def)
  finally show ?thesis by simp
qed

lemma format_scan_template:
  "list_all field_name_ok ns \<Longrightarrow> \<forall>n \<in> set ns. ctx n = Some (g n) \<Longrightarrow>
   format_scan ctx None (join '', '' (map field_format ns))
     = Inr (join '', '' (map (\<lambda>n. n @ ''='' @ render (g n)) ns))"
proof (induction ns rule: induct_list012)
  case 1
  then show ?case by simp
next
  case (2 x)
  then show ?case
    using format_scan_field_format [of x ctx "g x" "[]"] by simp
next
  case (3 x y zs)
  have sep: "list_all (\<lambda>c. c \<noteq> CHR ''{'' \<and> c \<noteq> CHR ''}'') '', ''" by simp
  have "format_scan ctx None (join '', '' (map field_format (x # y # zs)))
        = format_scan ctx None (field_format x @ '', '' @ join '', '' (map field_format (y # zs)))"
    by simp
  also have "\<dots> = prepend (x @ ''='' @ render (g x))
        (format_scan ctx None ('', '' @ join '', '' (map field_format (y # zs))))"
    using 3(3,4) by (intro format_scan_field_format) simp_all
  also have "format_scan ctx None ('', '' @ join '', '' (map field_format (y # zs)))
        = prepend '', '' (format_scan ctx None (join '', '' (map field_format (y # zs))))"
    by (rule format_scan_literal [OF sep])
  also have "format_scan ctx None (join '', '' (map field_format (y # zs)))
        = Inr (join '', '' (map (\<lambda>n. n @ ''='' @ render (g n)) (y # zs)))"
    using 3(3,4) by (intro 3(2)) simp_all
  finally show ?case by simp
qed

lemma build_context_fold:
  "fold (\<lambda>name context. context(name \<mapsto> g name)) ns m n
   = (if n \<in> set ns then Some (g n) else m n)"
  by (induction ns arbitrary: m) auto

lemma build_context_apply:
  "n \<in> set ns \<Longrightarrow> build_context self ns n = Some (field_value (self n))"
  by (simp add: build_context_def build_context_fold)

lemma getattr_cls_setattr_same [simp]:
  "getattr_cls (setattr_cls cs c name v) (c # bases) name dflt = v"
  by (simp add: setattr_cls_def)

lemma join_field_format_nonempty:
  "ns \<noteq> [] \<Longrightarrow> join '', '' (map field_format ns) \<noteq> []"
  by (induction ns rule: induct_list012) (simp_all add: field_format_def)

lemma get_pretty_fields_template:
  assumes "declared_fields cs (c # bases) ns" and "ns \<noteq> []"
    and "template_current cs (c # bases) ns"
  shows "fst (get_pretty_fields cs c bases) = Inr (CStr (join '', '' (map field_format ns)))"
proof (cases "ctruthy (getattr_cls cs (c # bases) ''__pretty_field_format__'' CNone)")
  case True
  with assms(3) have "getattr_cls cs (c # bases) ''__pretty_field_format__'' CNone
      = CStr (join '', '' (map field_format ns))"
    by (auto simp: template_current_def)
  then show ?thesis
    using True by (simp add: get_pretty_fields_def del: getattr_cls.simps)
next
  case False
  from assms(1,2) show ?thesis
    using False
    by (auto simp: get_pretty_fields_def declared_fields_def Let_def simp del: getattr_cls.simps)
qed

lemma render_field_value:
  "render (field_value a) =
     (case a of
        Absent \<Rightarrow> ''??''
      | Raises (Exc k m) \<Rightarrow> if k = AttributeError then ''??'' else m
      | Present (Inl (Exc k m)) \<Rightarrow> m
      | Present (Inr s) \<Rightarrow> s)"
  by (auto split: access.splits exc.splits sum.splits)

lemma pretty_repr_fields:
  assumes "declared_fields cs (c # bases) ns" and "ns \<noteq> []" and "list_all field_name_ok ns"
    and "template_current cs (c # bases) ns"
  shows "fst (pretty_repr cs c bases result0 self)
         = Inr (butlast result0 @ '' '' @
                join '', '' (map (\<lambda>n. n @ ''='' @ render (field_value (self n))) ns) @ ''>'')"
proof -
  let ?F0 = "getattr_cls cs (c # bases) ''__pretty_fields__'' CNone"
  have fields: "(if ?F0 = CNone then getattr_cls cs (c # bases) ''__slots__'' CNone else ?F0)
      = CList ns"
    using assms(1) by (auto simp: declared_fields_def)
  obtain r cs' where g: "get_pretty_fields cs c bases = (r, cs')"
    by (cases "get_pretty_fields cs c bases")
  with get_pretty_fields_template [OF assms(1,2,4)]
  have r: "r = Inr (CStr (join '', '' (map field_format ns)))" by simp
  have fmt: "format_scan (build_context self ns) None (join '', '' (map field_format ns))
      = Inr (join '', '' (map (\<lambda>n. n @ ''='' @ render (field_value (self n))) ns))"
    using assms(3) by (intro format_scan_template) (simp_all add: build_context_apply)
  show ?thesis
    unfolding pretty_repr_def Let_def fields
    using assms(2) by (simp add: g r py_format_def fmt del: getattr_cls.simps)
qed

text \<open>
  C5. On a class with no field list (no \<open>__pretty_fields__\<close> and no \<open>__slots__\<close>
  anywhere in its resolution order) \<open>get_pretty_fields()\<close> stores the marker \<open>False\<close>
  and then fails: the list comprehension iterates over \<open>None\<close>.
\<close>

theorem get_pretty_fields_no_fields_raises:
  "get_pretty_fields example_classes ''Bare'' [''PrettyObject'', ''object'']
   = (Inl (Exc TypeError ''object is not iterable''),
      setattr_cls example_classes ''Bare'' ''__pretty_field_format__'' (CBool False))"
  by (simp add: get_pretty_fields_def example_classes_def)

text \<open>
  A template that a subclass inherits from its base, where it was cached for the base's
  fields, makes the representation of the subclass fail.
\<close>

lemma pretty_repr_stale_template:
  "fst (pretty_repr stale_classes ''Sub'' [''Point'', ''PrettyObject'', ''object'']
          ''<Sub object at 0x1>'' (\<lambda>n. Absent))
   = Inl (Exc KeyError [CHR 0x27, CHR ''a'', CHR 0x27])"
  by (simp add: pretty_repr_def get_pretty_fields_def stale_classes_def py_format_def
      build_context_def replace_field_def plain_field_def digits_def)




section \<open>Properties of qdict: the recursive update that converts\<close>

lemma grows_refl [simp]: "grows h h"
  by (simp add: grows_def)

lemma grows_trans:
  assumes "grows h h1" and "grows h1 h2"
  shows "grows h h2"
  unfolding grows_def
proof (intro conjI allI impI)
  show "length h \<le> length h2"
    using assms by (simp add: grows_def)
next
  fix a assume a: "a < length h"
  then have a1: "a < length h1" using assms(1) by (simp add: grows_def)
  show "cls (h2 ! a) = cls (h ! a)"
    using assms a a1 by (simp add: grows_def)
next
  fix a assume a: "a < length h"
  then have a1: "a < length h1" using assms(1) by (simp add: grows_def)
  have "set (keys h a) \<subseteq> set (keys h1 a)" using assms(1) a by (simp add: grows_def)
  moreover have "set (keys h1 a) \<subseteq> set (keys h2 a)" using assms(2) a1 by (simp add: grows_def)
  ultimately show "set (keys h a) \<subseteq> set (keys h2 a)" by (rule subset_trans)
next
  fix a k c
  assume a: "a < length h" and q: "cls (h ! a) = QDict"
    and e: "getitem h a k = Some (VRef c) \<and> c < length h \<and> cls (h ! c) = QDict"
  have a1: "a < length h1" and c1: "c < length h1"
    using assms(1) a e by (simp_all add: grows_def)
  have q1: "cls (h1 ! a) = QDict" and qc1: "cls (h1 ! c) = QDict"
    using assms(1) a q e by (simp_all add: grows_def)
  have "getitem h1 a k = Some (VRef c)"
    using assms(1) a q e unfolding grows_def by blast
  then show "getitem h2 a k = Some (VRef c)"
    using assms(2) a1 c1 q1 qc1 unfolding grows_def by blast
qed

lemma grows_length: "grows h h' \<Longrightarrow> length h \<le> length h'"
  by (simp add: grows_def)

lemma grows_cls: "grows h h' \<Longrightarrow> a < length h \<Longrightarrow> cls (h' ! a) = cls (h ! a)"
  by (simp add: grows_def)

lemma grows_keys: "grows h h' \<Longrightarrow> a < length h \<Longrightarrow> set (keys h a) \<subseteq> set (keys h' a)"
  by (simp add: grows_def)

lemma grows_qdict_entry:
  "grows h h' \<Longrightarrow> a < length h \<Longrightarrow> cls (h ! a) = QDict \<Longrightarrow> getitem h a k = Some (VRef c) \<Longrightarrow>
   c < length h \<Longrightarrow> cls (h ! c) = QDict \<Longrightarrow> getitem h' a k = Some (VRef c)"
  unfolding grows_def by blast

lemma getitem_setitem:
  "a < length h \<Longrightarrow>
   getitem (setitem h a k v) a' k' = (if a' = a \<and> k' = k then Some v else getitem h a' k')"
  by (auto simp: getitem_def setitem_def AList.update_conv' nth_list_update)

lemma keys_setitem:
  "a < length h \<Longrightarrow>
   set (keys (setitem h a k v) a') = (if a' = a then insert k (set (keys h a)) else set (keys h a'))"
  by (auto simp: keys_def setitem_def nth_list_update AList.dom_update)

lemma length_setitem [simp]: "length (setitem h a k v) = length h"
  by (simp add: setitem_def)

lemma cls_setitem [simp]: "cls (setitem h a k v ! a') = cls (h ! a')"
  by (cases "a < length h"; cases "a' = a") (simp_all add: setitem_def list_update_beyond)

lemma grows_setitem:
  assumes "a < length h"
    and "\<forall>c. getitem h a k = Some (VRef c) \<longrightarrow> \<not> (c < length h \<and> cls (h ! c) = QDict)"
  shows "grows h (setitem h a k v)"
  unfolding grows_def using assms
  by (auto simp: getitem_setitem keys_setitem)

lemma grows_append: "grows h (h @ obs)"
  by (simp add: grows_def nth_append keys_def getitem_def)

lemma keys_merge_entries:
  "fst ` set (merge_entries xs ys) = fst ` set xs \<union> fst ` set ys"
proof (induction xs arbitrary: ys)
  case Nil
  then show ?case by (simp add: merge_entries_def)
next
  case (Cons x xs)
  have "merge_entries (x # xs) ys = merge_entries xs (AList.update (fst x) (snd x) ys)"
    by (simp add: merge_entries_def case_prod_unfold)
  then show ?case
    by (simp add: Cons.IH AList.dom_update Un_assoc Un_left_commute)
qed

lemma dict_update_Inr:
  assumes "dict_update h c nv = Inr h'"
  shows "h' = h \<or> (\<exists>b. nv = VRef b \<and> b < length h \<and> cls (h ! b) \<noteq> OtherObj \<and>
           h' = h[c := (h ! c)\<lparr>entries := merge_entries (entries (h ! b)) (entries (h ! c))\<rparr>])"
  using assms
  by (auto simp: dict_update_def split: dyn.splits val.splits if_splits)

lemma grows_dict_update:
  assumes "dict_update h c nv = Inr h'" and "c < length h" and "cls (h ! c) \<noteq> QDict"
  shows "grows h h'"
proof -
  from dict_update_Inr [OF assms(1)] show ?thesis
  proof
    assume "h' = h"
    then show ?thesis by simp
  next
    assume "\<exists>b. nv = VRef b \<and> b < length h \<and> cls (h ! b) \<noteq> OtherObj \<and>
           h' = h[c := (h ! c)\<lparr>entries := merge_entries (entries (h ! b)) (entries (h ! c))\<rparr>]"
    then obtain b where
      h': "h' = h[c := (h ! c)\<lparr>entries := merge_entries (entries (h ! b)) (entries (h ! c))\<rparr>]"
      by blast
    have other: "\<And>a. a \<noteq> c \<Longrightarrow> h' ! a = h ! a" by (simp add: h')
    have this_one: "cls (h' ! c) = cls (h ! c)" "set (keys h c) \<subseteq> set (keys h' c)"
      using assms(2) by (simp_all add: h' keys_def keys_merge_entries)
    show ?thesis
      unfolding grows_def
    proof (intro conjI allI impI)
      show "length h \<le> length h'" by (simp add: h')
    next
      fix a assume "a < length h"
      show "cls (h' ! a) = cls (h ! a)"
        using this_one(1) other by (cases "a = c") simp_all
    next
      fix a assume "a < length h"
      show "set (keys h a) \<subseteq> set (keys h' a)"
        using this_one(2) other by (cases "a = c") (simp_all add: keys_def)
    next
      fix a k d
      assume "a < length h" and q: "cls (h ! a) = QDict"
        and "getitem h a k = Some (VRef d) \<and> d < length h \<and> cls (h ! d) = QDict"
      moreover from q assms(3) have "a \<noteq> c" by auto
      ultimately show "getitem h' a k = Some (VRef d)"
        using other by (simp add: getitem_def)
    qed
  qed
qed

lemma wrap_cases:
  assumes "wrap conv h nv0 = (h1, nv)"
  shows "(h1 = h \<and> nv = nv0) \<or>
         (\<exists>b. nv0 = VRef b \<and> b < length h \<and> cls (h ! b) \<noteq> OtherObj \<and> conv \<and>
              h1 = h @ [\<lparr>cls = QDict, entries = entries (h ! b)\<rparr>] \<and> nv = VRef (length h))"
  using assms
  by (auto simp: wrap_def new_qdict_def split: if_splits dyn.splits)

lemma grows_wrap: "wrap conv h nv0 = (h1, nv) \<Longrightarrow> grows h h1"
  by (auto dest!: wrap_cases simp: grows_append)

lemma merge_item_grows:
  assumes "upd_grows upd" and "merge_item upd h s conv k nv0 = Inr h'"
    and "s < length h" and "cls (h ! s) = QDict"
  shows "grows h h'"
proof -
  obtain h1 nv where w: "wrap conv h nv0 = (h1, nv)" by (cases "wrap conv h nv0")
  have g1: "grows h h1" using w by (rule grows_wrap)
  have s1: "s < length h1" using grows_length [OF g1] assms(3) by simp
  have c1: "cls (h1 ! s) = QDict" using grows_cls [OF g1 assms(3)] assms(4) by simp
  have "grows h1 h'"
  proof (cases "getitem h1 s k")
    case None
    with assms(2) w have "h' = setitem h1 s k nv" by (simp add: merge_item_def)
    then show ?thesis using None s1 by (simp add: grows_setitem)
  next
    case (Some cv)
    show ?thesis
    proof (cases "dyn_type h1 cv")
      case (IsQDict c)
      with assms(2) w Some have "upd h1 c nv True True conv = Inr h'"
        by (simp add: merge_item_def)
      moreover from IsQDict have "c < length h1" "cls (h1 ! c) = QDict" by simp_all
      ultimately show ?thesis using assms(1) unfolding upd_grows_def by blast
    next
      case (IsDict c)
      then have c: "c < length h1" "cls (h1 ! c) = PlainDict" "cv = VRef c" by simp_all
      show ?thesis
      proof (cases "dyn_type h1 nv = NotDict")
        case True
        with assms(2) w Some IsDict have "h' = setitem h1 s k nv" by (simp add: merge_item_def)
        then show ?thesis using Some c s1 by (simp add: grows_setitem)
      next
        case False
        with assms(2) w Some IsDict have "dict_update h1 c nv = Inr h'"
          by (simp add: merge_item_def)
        then show ?thesis using c by (intro grows_dict_update [of h1 c nv]) simp_all
      qed
    next
      case NotDict
      with assms(2) w Some have h': "h' = setitem h1 s k nv" by (simp add: merge_item_def)
      have "\<forall>c. getitem h1 s k = Some (VRef c) \<longrightarrow> \<not> (c < length h1 \<and> cls (h1 ! c) = QDict)"
        using Some NotDict by (auto simp: dyn_type_def)
      then show ?thesis unfolding h' using s1 by (rule grows_setitem [rotated])
    qed
  qed
  with g1 show ?thesis by (rule grows_trans)
qed

lemma merge_loop_grows:
  assumes "upd_grows upd"
  shows "merge_loop upd h s src n conv ks = Inr h' \<Longrightarrow> s < length h \<Longrightarrow> cls (h ! s) = QDict \<Longrightarrow>
         grows h h'"
proof (induction ks arbitrary: h)
  case Nil
  then show ?case by (simp split: if_splits)
next
  case (Cons k ks)
  from Cons.prems(1) obtain nv0 h1 where
    item: "merge_item upd h s conv k nv0 = Inr h1" and
    rest: "merge_loop upd h1 s src n conv ks = Inr h'"
    by (auto split: if_splits option.splits sum.splits)
  have g1: "grows h h1" using assms item Cons.prems(2,3) by (rule merge_item_grows)
  have "grows h1 h'"
    using rest grows_length [OF g1] grows_cls [OF g1 Cons.prems(2)] Cons.prems(2,3)
    by (intro Cons.IH) simp_all
  with g1 show ?case by (rule grows_trans)
qed

lemma update_grows: "upd_grows (update d)"
proof (induction d)
  case 0
  then show ?case by (simp add: upd_grows_def)
next
  case (Suc d)
  show ?case
    unfolding upd_grows_def
  proof (intro allI impI)
    fix h c nv conv h'
    assume run: "update (Suc d) h c nv True True conv = Inr h'"
      and c: "c < length h" "cls (h ! c) = QDict"
    show "grows h h'"
    proof (cases "dyn_type h nv")
      case NotDict
      with run show ?thesis by simp
    next
      case (IsDict src)
      with run have "merge_loop (update d) h c src (len h src) conv (keys h src) = Inr h'"
        by (simp add: update_from_def)
      then show ?thesis using c by (rule merge_loop_grows [OF Suc])
    next
      case (IsQDict src)
      with run have "merge_loop (update d) h c src (len h src) conv (keys h src) = Inr h'"
        by (simp add: update_from_def)
      then show ?thesis using c by (rule merge_loop_grows [OF Suc])
    qed
  qed
qed

lemma getitem_in_keys: "getitem h a k = Some v \<Longrightarrow> k \<in> set (keys h a)"
  by (auto simp: getitem_def keys_def dest!: map_of_SomeD intro: image_eqI [where x = "(k, v)"])

lemma getitem_in_entries: "getitem h a k = Some v \<Longrightarrow> (k, v) \<in> set (entries (h ! a))"
  by (auto simp: getitem_def dest: map_of_SomeD)

text \<open>The cases of the loop body.\<close>

lemma merge_item_cases:
  assumes "merge_item upd h s conv k nv0 = Inr h'"
  obtains (store) h1 nv where "wrap conv h nv0 = (h1, nv)" and "h' = setitem h1 s k nv"
      and "\<forall>c. getitem h1 s k = Some (VRef c) \<longrightarrow> \<not> (c < length h1 \<and> cls (h1 ! c) = QDict)"
    | (nested) h1 nv c where "wrap conv h nv0 = (h1, nv)" and "getitem h1 s k = Some (VRef c)"
      and "c < length h1" and "cls (h1 ! c) = QDict" and "upd h1 c nv True True conv = Inr h'"
    | (builtin) h1 nv c where "wrap conv h nv0 = (h1, nv)" and "getitem h1 s k = Some (VRef c)"
      and "c < length h1" and "cls (h1 ! c) = PlainDict" and "dict_update h1 c nv = Inr h'"
proof -
  obtain h1 nv where w: "wrap conv h nv0 = (h1, nv)" by (cases "wrap conv h nv0")
  show thesis
  proof (cases "getitem h1 s k")
    case None
    with assms w have "h' = setitem h1 s k nv" by (simp add: merge_item_def)
    then show ?thesis using w None by (intro store [of h1 nv]) auto
  next
    case (Some cv)
    show ?thesis
    proof (cases "dyn_type h1 cv")
      case (IsQDict c)
      with assms w Some have "upd h1 c nv True True conv = Inr h'"
        by (simp add: merge_item_def)
      then show ?thesis using w Some IsQDict by (intro nested [of h1 nv c]) simp_all
    next
      case (IsDict c)
      show ?thesis
      proof (cases "dyn_type h1 nv = NotDict")
        case True
        with assms w Some IsDict have "h' = setitem h1 s k nv" by (simp add: merge_item_def)
        then show ?thesis using w Some IsDict by (intro store [of h1 nv]) auto
      next
        case False
        with assms w Some IsDict have "dict_update h1 c nv = Inr h'"
          by (simp add: merge_item_def)
        then show ?thesis using w Some IsDict by (intro builtin [of h1 nv c]) simp_all
      qed
    next
      case NotDict
      with assms w Some have "h' = setitem h1 s k nv" by (simp add: merge_item_def)
      moreover have "\<forall>c. getitem h1 s k = Some (VRef c) \<longrightarrow> \<not> (c < length h1 \<and> cls (h1 ! c) = QDict)"
        using Some NotDict by (auto simp: dyn_type_def)
      ultimately show ?thesis using w by (intro store [of h1 nv]) simp_all
    qed
  qed
qed

lemma merge_item_key:
  assumes "upd_grows upd" and "merge_item upd h s conv k nv0 = Inr h'"
    and "s < length h" and "cls (h ! s) = QDict"
  shows "k \<in> set (keys h' s)"
  using assms(2)
proof (cases rule: merge_item_cases)
  case (store h1 nv)
  have "s < length h1" using grows_length [OF grows_wrap [OF store(1)]] assms(3) by simp
  then show ?thesis by (simp add: store(2) keys_setitem)
next
  case (nested h1 nv c)
  have "grows h1 h'" using assms(1) nested(3,4,5) unfolding upd_grows_def by blast
  moreover have "s < length h1" using grows_length [OF grows_wrap [OF nested(1)]] assms(3) by simp
  ultimately show ?thesis using getitem_in_keys [OF nested(2)] grows_keys by blast
next
  case (builtin h1 nv c)
  have "grows h1 h'" using builtin(3,4,5) by (intro grows_dict_update [of h1 c nv]) simp_all
  moreover have "s < length h1" using grows_length [OF grows_wrap [OF builtin(1)]] assms(3) by simp
  ultimately show ?thesis using getitem_in_keys [OF builtin(2)] grows_keys by blast
qed

lemma merge_loop_keys:
  assumes "upd_grows upd"
  shows "merge_loop upd h s src n conv ks = Inr h' \<Longrightarrow> s < length h \<Longrightarrow> cls (h ! s) = QDict \<Longrightarrow>
         set ks \<subseteq> set (keys h' s)"
proof (induction ks arbitrary: h)
  case Nil
  then show ?case by simp
next
  case (Cons k ks)
  from Cons.prems(1) obtain nv0 h1 where
    item: "merge_item upd h s conv k nv0 = Inr h1" and
    rest: "merge_loop upd h1 s src n conv ks = Inr h'"
    by (auto split: if_splits option.splits sum.splits)
  have g1: "grows h h1" using assms item Cons.prems(2,3) by (rule merge_item_grows)
  have s1: "s < length h1" "cls (h1 ! s) = QDict"
    using grows_length [OF g1] grows_cls [OF g1 Cons.prems(2)] Cons.prems(2,3) by simp_all
  have "k \<in> set (keys h1 s)" using assms item Cons.prems(2,3) by (rule merge_item_key)
  moreover have "grows h1 h'" using rest s1 by (rule merge_loop_grows [OF assms])
  ultimately have "k \<in> set (keys h' s)" using grows_keys s1(1) by blast
  moreover have "set ks \<subseteq> set (keys h' s)" using rest s1 by (rule Cons.IH)
  ultimately show ?case by simp
qed

lemma update_merges_keys:
  assumes "update d h s (VRef b) True True conv = Inr h'" and "s < length h"
    and "cls (h ! s) = QDict" and "b < length h" and "cls (h ! b) \<noteq> OtherObj"
  shows "set (keys h b) \<subseteq> set (keys h' s)"
proof (cases d)
  case 0
  with assms(1) show ?thesis by simp
next
  case (Suc d')
  from assms(4,5) have "dyn_type h (VRef b) = IsDict b \<or> dyn_type h (VRef b) = IsQDict b"
    by (cases "cls (h ! b)") simp_all
  then have "update (Suc d') h s (VRef b) True True conv
      = merge_loop (update d') h s b (len h b) conv (keys h b)"
    by (auto simp: update_from_def simp del: dyn_type_IsDict dyn_type_IsQDict)
  with assms(1) Suc
  have "merge_loop (update d') h s b (len h b) conv (keys h b) = Inr h'"
    by simp
  then show ?thesis using assms(2,3) by (rule merge_loop_keys [OF update_grows])
qed

lemma frame_refl [simp]: "frame R h h"
  by (simp add: frame_def)

lemma frame_trans: "frame R h h1 \<Longrightarrow> frame R h1 h2 \<Longrightarrow> length h \<le> length h1 \<Longrightarrow> frame R h h2"
  by (auto simp: frame_def)

lemma upper_mono: "upper R h \<Longrightarrow> length h \<le> length h' \<Longrightarrow> upper R h'"
  by (auto simp: upper_def)

lemma closed_val_ok: "closed_under h R \<Longrightarrow> refs_in R v \<Longrightarrow> val_ok h R v"
  by (auto simp: val_ok_def closed_under_def refs_in_def split: dyn.splits)

lemma closed_child:
  assumes "closed_under h R" and "a < length h" and "a \<in> R" and "getitem h a k = Some (VRef c)"
  shows "c \<in> R"
proof -
  have "(k, VRef c) \<in> set (entries (h ! a))" using assms(4) by (rule getitem_in_entries)
  moreover have "\<forall>p \<in> set (entries (h ! a)). refs_in R (snd p)"
    using assms(1,2,3) by (simp add: closed_under_def entries_in_def)
  ultimately have "refs_in R (snd (k, VRef c))" by blast
  then show ?thesis by (simp add: refs_in_def)
qed

lemma set_update_subset: "set (AList.update k v es) \<subseteq> insert (k, v) (set es)"
  by (induction es) auto

lemma set_merge_entries_subset: "set (merge_entries xs ys) \<subseteq> set xs \<union> set ys"
proof (induction xs arbitrary: ys)
  case Nil
  then show ?case by (simp add: merge_entries_def)
next
  case (Cons x xs)
  have "merge_entries (x # xs) ys = merge_entries xs (AList.update (fst x) (snd x) ys)"
    by (simp add: merge_entries_def case_prod_unfold)
  then show ?case
    using Cons.IH [of "AList.update (fst x) (snd x) ys"] set_update_subset [of "fst x" "snd x" ys]
    by auto
qed

lemma entries_in_setitem:
  assumes "a < length h" and "entries_in R h a" and "refs_in R v"
  shows "entries_in R (setitem h a k v) a"
  using assms set_update_subset [of k v "entries (h ! a)"]
  by (auto simp: entries_in_def setitem_def)

lemma entries_in_other:
  "h' ! a = h ! a \<Longrightarrow> entries_in R h' a = entries_in R h a"
  by (simp add: entries_in_def)

lemma setitem_other: "a' \<noteq> a \<Longrightarrow> setitem h a k v ! a' = h ! a'"
  by (simp add: setitem_def)

lemma frame_setitem: "a \<in> R \<Longrightarrow> frame R h (setitem h a k v)"
proof -
  assume a: "a \<in> R"
  have "\<And>a'. a' \<notin> R \<Longrightarrow> setitem h a k v ! a' = h ! a'"
  proof -
    fix a' assume "a' \<notin> R"
    with a have "a' \<noteq> a" by blast
    then show "setitem h a k v ! a' = h ! a'" by (rule setitem_other)
  qed
  then show ?thesis by (simp add: frame_def)
qed

lemma closed_setitem:
  assumes "closed_under h R" and "a < length h" and "refs_in R v"
  shows "closed_under (setitem h a k v) R"
  unfolding closed_under_def
proof (intro allI impI)
  fix a' assume a': "a' < length (setitem h a k v)" "a' \<in> R"
  show "entries_in R (setitem h a k v) a'"
  proof (cases "a' = a")
    case True
    with assms a' show ?thesis by (simp add: entries_in_setitem closed_under_def)
  next
    case False
    with assms(1) a' show ?thesis
      by (simp add: entries_in_other [OF setitem_other] closed_under_def)
  qed
qed

lemma closed_append:
  assumes "closed_under h R" and "\<forall>p \<in> set es. refs_in R (snd p)"
  shows "closed_under (h @ [\<lparr>cls = c, entries = es\<rparr>]) R"
  unfolding closed_under_def
proof (intro allI impI)
  fix a assume a: "a < length (h @ [\<lparr>cls = c, entries = es\<rparr>])" "a \<in> R"
  show "entries_in R (h @ [\<lparr>cls = c, entries = es\<rparr>]) a"
  proof (cases "a < length h")
    case True
    with assms(1) a(2) show ?thesis by (simp add: closed_under_def entries_in_def nth_append)
  next
    case False
    with a(1) have "a = length h" by simp
    with assms(2) show ?thesis by (simp add: entries_in_def)
  qed
qed

lemma frame_append: "frame R h (h @ obs)"
  by (simp add: frame_def nth_append)

lemma val_ok_dict:
  "val_ok h R (VRef b) \<Longrightarrow> b < length h \<Longrightarrow> cls (h ! b) \<noteq> OtherObj \<Longrightarrow> entries_in R h b"
  by (cases "cls (h ! b)") (auto simp: val_ok_def dyn_type_def)

lemma val_ok_not_dict: "val_ok h R v \<Longrightarrow> dyn_type h v = NotDict \<Longrightarrow> refs_in R v"
  by (simp add: val_ok_def)

lemma wrap_frames:
  assumes "wrap True h nv0 = (h1, nv)" and "closed_under h R" and "upper R h" and "val_ok h R nv0"
  shows "frame R h h1 \<and> closed_under h1 R \<and> refs_in R nv"
proof -
  from wrap_cases [OF assms(1)] show ?thesis
  proof
    assume same: "h1 = h \<and> nv = nv0"
    with assms(1) have "dyn_type h nv0 = NotDict"
      by (auto simp: wrap_def new_qdict_def split: dyn.splits)
    with assms(4) have "refs_in R nv0" by (rule val_ok_not_dict)
    with same assms(2) show ?thesis by simp
  next
    assume "\<exists>b. nv0 = VRef b \<and> b < length h \<and> cls (h ! b) \<noteq> OtherObj \<and> True \<and>
        h1 = h @ [\<lparr>cls = QDict, entries = entries (h ! b)\<rparr>] \<and> nv = VRef (length h)"
    then obtain b where b: "nv0 = VRef b" "b < length h" "cls (h ! b) \<noteq> OtherObj"
      and h1: "h1 = h @ [\<lparr>cls = QDict, entries = entries (h ! b)\<rparr>]" and nv: "nv = VRef (length h)"
      by blast
    have "entries_in R h b" using assms(4) b by (simp add: val_ok_dict)
    then have "closed_under h1 R"
      unfolding h1 using assms(2) by (intro closed_append) (simp_all add: entries_in_def)
    moreover have "refs_in R nv" using assms(3) by (simp add: nv refs_in_def upper_def)
    ultimately show ?thesis by (simp add: h1 frame_append)
  qed
qed

lemma source_ok_preserved:
  assumes "grows h h'" and "frame R h h'" and "closed_under h' R" and "upper R h"
    and "source_ok h R src" and "src < length h"
  shows "source_ok h' R src"
proof (cases "src \<in> R")
  case True
  have "src < length h'" using grows_length [OF assms(1)] assms(6) by simp
  with assms(3) True have "entries_in R h' src" by (simp add: closed_under_def)
  then have "\<And>p. p \<in> set (entries (h' ! src)) \<Longrightarrow> val_ok h' R (snd p)"
    using assms(3) by (intro closed_val_ok) (simp_all add: entries_in_def)
  then show ?thesis by (simp add: source_ok_def)
next
  case False
  then have same: "h' ! src = h ! src" using assms(2,6) by (simp add: frame_def)
  show ?thesis
    unfolding source_ok_def same
  proof
    fix p assume p: "p \<in> set (entries (h ! src))"
    with assms(5) have ok: "val_ok h R (snd p)" by (simp add: source_ok_def)
    show "val_ok h' R (snd p)"
    proof (cases "refs_in R (snd p)")
      case True
      with assms(3) show ?thesis by (rule closed_val_ok)
    next
      case False
      then obtain b where b: "snd p = VRef b" "b \<notin> R"
        by (auto simp: refs_in_def split: val.splits)
      with assms(4) have bl: "b < length h" by (auto simp: upper_def not_le [symmetric])
      then have bl': "b < length h'" using grows_length [OF assms(1)] by simp
      have sameb: "h' ! b = h ! b" using assms(2) bl b(2) by (simp add: frame_def)
      have "val_ok h' R (VRef b) = val_ok h R (VRef b)"
        using bl bl' sameb
        by (simp add: val_ok_def dyn_type_def entries_in_def split: pycls.splits)
      with ok b(1) show ?thesis by simp
    qed
  qed
qed

lemma closed_src_ok: "closed_under h R \<Longrightarrow> refs_in R nv \<Longrightarrow> src_ok h R nv"
proof -
  assume c: "closed_under h R" and r: "refs_in R nv"
  have "\<And>b. nv = VRef b \<Longrightarrow> b < length h \<Longrightarrow> source_ok h R b"
  proof -
    fix b assume b: "nv = VRef b" "b < length h"
    with r have "b \<in> R" by (simp add: refs_in_def)
    with c b have "entries_in R h b" by (simp add: closed_under_def)
    then have "\<And>p. p \<in> set (entries (h ! b)) \<Longrightarrow> val_ok h R (snd p)"
      using c by (intro closed_val_ok) (simp_all add: entries_in_def)
    then show "source_ok h R b" by (simp add: source_ok_def)
  qed
  then show ?thesis by (simp add: src_ok_def split: dyn.splits)
qed

lemma frame_dict_update:
  assumes "dict_update h c nv = Inr h'" and "c \<in> R"
  shows "frame R h h'"
proof -
  from dict_update_Inr [OF assms(1)] show ?thesis
  proof
    assume "h' = h" then show ?thesis by simp
  next
    assume "\<exists>b. nv = VRef b \<and> b < length h \<and> cls (h ! b) \<noteq> OtherObj \<and>
           h' = h[c := (h ! c)\<lparr>entries := merge_entries (entries (h ! b)) (entries (h ! c))\<rparr>]"
    then obtain b where
      h': "h' = h[c := (h ! c)\<lparr>entries := merge_entries (entries (h ! b)) (entries (h ! c))\<rparr>]"
      by blast
    have "\<And>a. a \<notin> R \<Longrightarrow> h' ! a = h ! a"
    proof -
      fix a assume "a \<notin> R"
      with assms(2) have "a \<noteq> c" by blast
      then show "h' ! a = h ! a" by (simp add: h')
    qed
    then show ?thesis by (simp add: frame_def)
  qed
qed

lemma closed_dict_update:
  assumes "dict_update h c nv = Inr h'" and "c < length h" and "closed_under h R" and "refs_in R nv"
  shows "closed_under h' R"
proof -
  from dict_update_Inr [OF assms(1)] show ?thesis
  proof
    assume "h' = h" with assms(3) show ?thesis by simp
  next
    assume "\<exists>b. nv = VRef b \<and> b < length h \<and> cls (h ! b) \<noteq> OtherObj \<and>
           h' = h[c := (h ! c)\<lparr>entries := merge_entries (entries (h ! b)) (entries (h ! c))\<rparr>]"
    then obtain b where b: "nv = VRef b" "b < length h" and
      h': "h' = h[c := (h ! c)\<lparr>entries := merge_entries (entries (h ! b)) (entries (h ! c))\<rparr>]"
      by blast
    from assms(4) b(1) have bR: "b \<in> R" by (simp add: refs_in_def)
    with assms(3) b(2) have eb: "entries_in R h b" by (simp add: closed_under_def)
    show ?thesis
      unfolding closed_under_def
    proof (intro allI impI)
      fix a assume a: "a < length h'" "a \<in> R"
      then have al: "a < length h" by (simp add: h')
      with assms(3) a(2) have ea: "entries_in R h a" by (simp add: closed_under_def)
      show "entries_in R h' a"
      proof (cases "a = c")
        case True
        have "set (entries (h' ! c)) \<subseteq> set (entries (h ! b)) \<union> set (entries (h ! c))"
          using assms(2) by (simp add: h' set_merge_entries_subset)
        with ea eb True show ?thesis by (auto simp: entries_in_def)
      next
        case False
        then have "h' ! a = h ! a" by (simp add: h')
        with ea show ?thesis by (simp add: entries_in_def)
      qed
    qed
  qed
qed

lemma merge_item_frames:
  assumes "upd_frames R upd" and "merge_item upd h s True k nv0 = Inr h'"
    and "s < length h" and "cls (h ! s) = QDict" and "s \<in> R"
    and "closed_under h R" and "upper R h" and "val_ok h R nv0"
  shows "frame R h h' \<and> closed_under h' R"
  using assms(2)
proof (cases rule: merge_item_cases)
  case (store h1 nv)
  from wrap_frames [OF store(1) assms(6,7,8)]
  have f1: "frame R h h1" and c1: "closed_under h1 R" and r: "refs_in R nv" by simp_all
  have l1: "length h \<le> length h1" using grows_length [OF grows_wrap [OF store(1)]] .
  then have s1: "s < length h1" using assms(3) by simp
  have "frame R h1 h'" unfolding store(2) using assms(5) by (rule frame_setitem)
  with f1 have "frame R h h'" using l1 by (rule frame_trans)
  moreover have "closed_under h' R" unfolding store(2) using c1 s1 r by (rule closed_setitem)
  ultimately show ?thesis by simp
next
  case (nested h1 nv c)
  from wrap_frames [OF nested(1) assms(6,7,8)]
  have f1: "frame R h h1" and c1: "closed_under h1 R" and r: "refs_in R nv" by simp_all
  have l1: "length h \<le> length h1" using grows_length [OF grows_wrap [OF nested(1)]] .
  then have s1: "s < length h1" using assms(3) by simp
  have cR: "c \<in> R" using c1 s1 assms(5) nested(2) by (rule closed_child)
  have u1: "upper R h1" using assms(7) l1 by (rule upper_mono)
  have so: "src_ok h1 R nv" using c1 r by (rule closed_src_ok)
  have "frame R h1 h' \<and> closed_under h' R"
    using assms(1) nested(3,4,5) cR c1 u1 so unfolding upd_frames_def by blast
  then show ?thesis using f1 l1 frame_trans by blast
next
  case (builtin h1 nv c)
  from wrap_frames [OF builtin(1) assms(6,7,8)]
  have f1: "frame R h h1" and c1: "closed_under h1 R" and r: "refs_in R nv" by simp_all
  have l1: "length h \<le> length h1" using grows_length [OF grows_wrap [OF builtin(1)]] .
  then have s1: "s < length h1" using assms(3) by simp
  have cR: "c \<in> R" using c1 s1 assms(5) builtin(2) by (rule closed_child)
  have "frame R h1 h'" using builtin(5) cR by (rule frame_dict_update)
  with f1 have "frame R h h'" using l1 by (rule frame_trans)
  moreover have "closed_under h' R" using builtin(5,3) c1 r by (rule closed_dict_update)
  ultimately show ?thesis by simp
qed

lemma merge_loop_frames:
  assumes "upd_grows upd" and "upd_frames R upd"
  shows "merge_loop upd h s src n True ks = Inr h' \<Longrightarrow> s < length h \<Longrightarrow> cls (h ! s) = QDict \<Longrightarrow>
         s \<in> R \<Longrightarrow> closed_under h R \<Longrightarrow> upper R h \<Longrightarrow> src < length h \<Longrightarrow> source_ok h R src \<Longrightarrow>
         frame R h h' \<and> closed_under h' R"
proof (induction ks arbitrary: h)
  case Nil
  then show ?case by (simp split: if_splits)
next
  case (Cons k ks)
  from Cons.prems(1) obtain nv0 h1 where
    nv0: "getitem h src k = Some nv0" and
    item: "merge_item upd h s True k nv0 = Inr h1" and
    rest: "merge_loop upd h1 s src n True ks = Inr h'"
    by (auto split: if_splits option.splits sum.splits)
  have ok: "val_ok h R nv0"
    using Cons.prems(8) getitem_in_entries [OF nv0] by (auto simp: source_ok_def)
  have g1: "grows h h1" using assms(1) item Cons.prems(2,3) by (rule merge_item_grows)
  have fc: "frame R h h1 \<and> closed_under h1 R"
    using assms(2) item Cons.prems(2,3,4,5,6) ok by (rule merge_item_frames)
  have l1: "length h \<le> length h1" using g1 by (rule grows_length)
  have so1: "source_ok h1 R src"
    using g1 fc Cons.prems(6,8,7) by (intro source_ok_preserved [of h h1 R src]) simp_all
  have "frame R h1 h' \<and> closed_under h' R"
    using rest l1 Cons.prems(2,3,4,6,7) grows_cls [OF g1 Cons.prems(2)] fc so1
      upper_mono [OF Cons.prems(6) l1]
    by (intro Cons.IH) simp_all
  then show ?case using fc l1 frame_trans by blast
qed

lemma update_frames: "upd_frames R (update d)"
proof (induction d)
  case 0
  then show ?case by (simp add: upd_frames_def)
next
  case (Suc d)
  show ?case
    unfolding upd_frames_def
  proof (intro allI impI)
    fix h c nv h'
    assume run: "update (Suc d) h c nv True True True = Inr h'"
      and c: "c < length h" "cls (h ! c) = QDict" "c \<in> R"
      and cl: "closed_under h R" and up: "upper R h" and so: "src_ok h R nv"
    show "frame R h h' \<and> closed_under h' R"
    proof (cases "dyn_type h nv")
      case NotDict
      with run cl show ?thesis by simp
    next
      case (IsDict src)
      with run have "merge_loop (update d) h c src (len h src) True (keys h src) = Inr h'"
        by (simp add: update_from_def)
      moreover have "src < length h" using IsDict by simp
      moreover have "source_ok h R src" using so unfolding src_ok_def IsDict by simp
      ultimately show ?thesis
        using c cl up by (intro merge_loop_frames [OF update_grows Suc]) simp_all
    next
      case (IsQDict src)
      with run have "merge_loop (update d) h c src (len h src) True (keys h src) = Inr h'"
        by (simp add: update_from_def)
      moreover have "src < length h" using IsQDict by simp
      moreover have "source_ok h R src" using so unfolding src_ok_def IsQDict by simp
      ultimately show ?thesis
        using c cl up by (intro merge_loop_frames [OF update_grows Suc]) simp_all
    qed
  qed
qed

lemma frame_mono: "frame R h h' \<Longrightarrow> R \<subseteq> R' \<Longrightarrow> frame R' h h'"
  by (auto simp: frame_def)

lemma frame_nth: "frame R h h' \<Longrightarrow> a < length h \<Longrightarrow> a \<notin> R \<Longrightarrow> h' ! a = h ! a"
  by (simp add: frame_def)

lemma wrap_old: "wrap conv h nv0 = (h1, nv) \<Longrightarrow> a < length h \<Longrightarrow> h1 ! a = h ! a"
  by (auto dest!: wrap_cases simp: nth_append)

lemma wrap_dict:
  assumes "wrap True h (VRef b) = (h1, nv)" and "b < length h" and "cls (h ! b) \<noteq> OtherObj"
  shows "h1 = h @ [\<lparr>cls = QDict, entries = entries (h ! b)\<rparr>] \<and> nv = VRef (length h)"
  using assms by (cases "cls (h ! b)") (auto simp: wrap_def new_qdict_def dyn_type_def)

lemma closed_setitem_outside:
  assumes "closed_under h R" and "s \<notin> R"
  shows "closed_under (setitem h s k v) R"
  unfolding closed_under_def
proof (intro allI impI)
  fix a assume a: "a < length (setitem h s k v)" "a \<in> R"
  then have "a \<noteq> s" using assms(2) by blast
  then have "setitem h s k v ! a = h ! a" by (rule setitem_other)
  then show "entries_in R (setitem h s k v) a"
    using assms(1) a by (simp add: closed_under_def entries_in_def)
qed

lemma getitem_same: "h' ! a = h ! a \<Longrightarrow> getitem h' a k = getitem h a k"
  by (simp add: getitem_def)

lemma keys_same: "h' ! a = h ! a \<Longrightarrow> keys h' a = keys h a"
  by (simp add: keys_def)

lemma entries_child:
  assumes "entries_in R h s" and "getitem h s k = Some (VRef c)"
  shows "c \<in> R"
proof -
  have "(k, VRef c) \<in> set (entries (h ! s))" using assms(2) by (rule getitem_in_entries)
  with assms(1) have "refs_in R (snd (k, VRef c))" unfolding entries_in_def by blast
  then show ?thesis by (simp add: refs_in_def)
qed

lemma merge_item_top:
  assumes run: "merge_item (update d) h s True k nv0 = Inr h'"
    and s: "s < length h" "cls (h ! s) = QDict" "s \<notin> R"
    and inv: "closed_under h R" "upper R h" "entries_in R h s" "val_ok h R nv0"
  shows "frame (insert s R) h h'" and "closed_under h' R" and "entries_in R h' s"
    and "\<forall>k2. k2 \<noteq> k \<longrightarrow> getitem h' s k2 = getitem h s k2"
    and "\<forall>b. getitem h s k = None \<and> nv0 = VRef b \<and> b < length h \<and> cls (h ! b) \<noteq> OtherObj \<longrightarrow>
           (\<exists>a. getitem h' s k = Some (VRef a) \<and> length h \<le> a \<and> a < length h' \<and>
                cls (h' ! a) = QDict \<and> set (keys h b) \<subseteq> set (keys h' a))"
    and "\<forall>c b. getitem h s k = Some (VRef c) \<and> c < length h \<and> cls (h ! c) = QDict \<and>
           nv0 = VRef b \<and> b < length h \<and> cls (h ! b) \<noteq> OtherObj \<longrightarrow>
           set (keys h b) \<subseteq> set (keys h' c)"
proof -
  have "frame (insert s R) h h' \<and> closed_under h' R \<and> entries_in R h' s \<and>
    (\<forall>k2. k2 \<noteq> k \<longrightarrow> getitem h' s k2 = getitem h s k2) \<and>
    (\<forall>b. getitem h s k = None \<and> nv0 = VRef b \<and> b < length h \<and> cls (h ! b) \<noteq> OtherObj \<longrightarrow>
           (\<exists>a. getitem h' s k = Some (VRef a) \<and> length h \<le> a \<and> a < length h' \<and>
                cls (h' ! a) = QDict \<and> set (keys h b) \<subseteq> set (keys h' a))) \<and>
    (\<forall>c b. getitem h s k = Some (VRef c) \<and> c < length h \<and> cls (h ! c) = QDict \<and>
           nv0 = VRef b \<and> b < length h \<and> cls (h ! b) \<noteq> OtherObj \<longrightarrow>
           set (keys h b) \<subseteq> set (keys h' c))"
    using run
  proof (cases rule: merge_item_cases)
    case (store h1 nv)
    from wrap_frames [OF store(1) inv(1,2,4)]
    have f1: "frame R h h1" and c1: "closed_under h1 R" and r: "refs_in R nv" by simp_all
    have l1: "length h \<le> length h1" using grows_length [OF grows_wrap [OF store(1)]] .
    then have s1: "s < length h1" using s(1) by simp
    have olds: "h1 ! s = h ! s" using store(1) s(1) by (rule wrap_old)
    have "frame (insert s R) h1 h'" unfolding store(2) by (rule frame_setitem) simp
    moreover have "frame (insert s R) h h1" using f1 by (rule frame_mono) blast
    ultimately have T1: "frame (insert s R) h h'" using l1 frame_trans by blast
    have T2: "closed_under h' R" unfolding store(2) using c1 s(3) by (rule closed_setitem_outside)
    have "entries_in R h1 s" using inv(3) olds by (simp add: entries_in_def)
    then have T3: "entries_in R h' s" unfolding store(2) using s1 r
      by (intro entries_in_setitem) simp_all
    have T4: "\<forall>k2. k2 \<noteq> k \<longrightarrow> getitem h' s k2 = getitem h s k2"
      using s1 by (simp add: store(2) getitem_setitem getitem_same [OF olds])
    have T5: "\<forall>b. getitem h s k = None \<and> nv0 = VRef b \<and> b < length h \<and> cls (h ! b) \<noteq> OtherObj \<longrightarrow>
           (\<exists>a. getitem h' s k = Some (VRef a) \<and> length h \<le> a \<and> a < length h' \<and>
                cls (h' ! a) = QDict \<and> set (keys h b) \<subseteq> set (keys h' a))"
    proof (intro allI impI, elim conjE)
      fix b assume b: "nv0 = VRef b" "b < length h" "cls (h ! b) \<noteq> OtherObj"
      from store(1) b have w: "h1 = h @ [\<lparr>cls = QDict, entries = entries (h ! b)\<rparr>]"
        "nv = VRef (length h)" using wrap_dict by blast+
      have ne: "length h \<noteq> s" using s(1) by simp
      have "h' ! length h = h1 ! length h"
        unfolding store(2) using ne by (intro setitem_other) simp
      then have A: "h' ! length h = \<lparr>cls = QDict, entries = entries (h ! b)\<rparr>"
        by (simp add: w(1))
      have "getitem h' s k = Some (VRef (length h))"
        using s1 by (simp add: store(2) getitem_setitem w(2))
      moreover have "length h < length h'" by (simp add: store(2) w(1))
      moreover have "cls (h' ! length h) = QDict" by (simp add: A)
      moreover have "set (keys h b) \<subseteq> set (keys h' (length h))" by (simp add: keys_def A)
      ultimately show "\<exists>a. getitem h' s k = Some (VRef a) \<and> length h \<le> a \<and> a < length h' \<and>
                cls (h' ! a) = QDict \<and> set (keys h b) \<subseteq> set (keys h' a)"
        by (intro exI [of _ "length h"]) simp
    qed
    have T6: "\<forall>c b. getitem h s k = Some (VRef c) \<and> c < length h \<and> cls (h ! c) = QDict \<and>
           nv0 = VRef b \<and> b < length h \<and> cls (h ! b) \<noteq> OtherObj \<longrightarrow>
           set (keys h b) \<subseteq> set (keys h' c)"
    proof (intro allI impI, elim conjE)
      fix c b assume c: "getitem h s k = Some (VRef c)" "c < length h" "cls (h ! c) = QDict"
      have "getitem h1 s k = Some (VRef c)" using c(1) by (simp add: getitem_same [OF olds])
      moreover have "c < length h1" using c(2) l1 by simp
      moreover have "cls (h1 ! c) = QDict" using wrap_old [OF store(1) c(2)] c(3) by simp
      ultimately have False using store(3) by blast
      then show "set (keys h b) \<subseteq> set (keys h' c)" ..
    qed
    from T1 T2 T3 T4 T5 T6 show ?thesis by blast
  next
    case (nested h1 nv c)
    from wrap_frames [OF nested(1) inv(1,2,4)]
    have f1: "frame R h h1" and c1: "closed_under h1 R" and r: "refs_in R nv" by simp_all
    have l1: "length h \<le> length h1" using grows_length [OF grows_wrap [OF nested(1)]] .
    then have s1: "s < length h1" using s(1) by simp
    have olds: "h1 ! s = h ! s" using nested(1) s(1) by (rule wrap_old)
    have gk: "getitem h s k = Some (VRef c)" using nested(2) by (simp add: getitem_same [OF olds])
    have cR: "c \<in> R" using inv(3) gk by (rule entries_child)
    have u1: "upper R h1" using inv(2) l1 by (rule upper_mono)
    have so: "src_ok h1 R nv" using c1 r by (rule closed_src_ok)
    have fc: "frame R h1 h' \<and> closed_under h' R"
      using update_frames [of R d] nested(3,4,5) cR c1 u1 so unfolding upd_frames_def by blast
    then have "frame R h h'" using f1 l1 frame_trans by blast
    then have T1: "frame (insert s R) h h'" by (rule frame_mono) blast
    have news: "h' ! s = h ! s"
      using frame_nth [of R h1 h' s] fc s1 s(3) olds by simp
    have T3: "entries_in R h' s" using inv(3) news by (simp add: entries_in_def)
    have T4: "\<forall>k2. k2 \<noteq> k \<longrightarrow> getitem h' s k2 = getitem h s k2"
      by (simp add: getitem_same [OF news])
    have T5: "\<forall>b. getitem h s k = None \<and> nv0 = VRef b \<and> b < length h \<and> cls (h ! b) \<noteq> OtherObj \<longrightarrow>
           (\<exists>a. getitem h' s k = Some (VRef a) \<and> length h \<le> a \<and> a < length h' \<and>
                cls (h' ! a) = QDict \<and> set (keys h b) \<subseteq> set (keys h' a))"
      using gk by simp
    have T6: "\<forall>c' b. getitem h s k = Some (VRef c') \<and> c' < length h \<and> cls (h ! c') = QDict \<and>
           nv0 = VRef b \<and> b < length h \<and> cls (h ! b) \<noteq> OtherObj \<longrightarrow>
           set (keys h b) \<subseteq> set (keys h' c')"
    proof (intro allI impI, elim conjE)
      fix c' b assume c': "getitem h s k = Some (VRef c')"
        and b: "nv0 = VRef b" "b < length h" "cls (h ! b) \<noteq> OtherObj"
      from c' gk have cc: "c' = c" by simp
      from nested(1) b have w: "h1 = h @ [\<lparr>cls = QDict, entries = entries (h ! b)\<rparr>]"
        "nv = VRef (length h)" using wrap_dict by blast+
      have "set (keys h1 (length h)) \<subseteq> set (keys h' c)"
        using nested(5,3,4) unfolding w(2)
        by (rule update_merges_keys) (simp_all add: w(1))
      moreover have "keys h1 (length h) = keys h b" by (simp add: keys_def w(1))
      ultimately show "set (keys h b) \<subseteq> set (keys h' c')" by (simp add: cc)
    qed
    from T1 fc T3 T4 T5 T6 show ?thesis by blast
  next
    case (builtin h1 nv c)
    from wrap_frames [OF builtin(1) inv(1,2,4)]
    have f1: "frame R h h1" and c1: "closed_under h1 R" and r: "refs_in R nv" by simp_all
    have l1: "length h \<le> length h1" using grows_length [OF grows_wrap [OF builtin(1)]] .
    then have s1: "s < length h1" using s(1) by simp
    have olds: "h1 ! s = h ! s" using builtin(1) s(1) by (rule wrap_old)
    have gk: "getitem h s k = Some (VRef c)" using builtin(2) by (simp add: getitem_same [OF olds])
    have cR: "c \<in> R" using inv(3) gk by (rule entries_child)
    have f2: "frame R h1 h'" using builtin(5) cR by (rule frame_dict_update)
    with f1 have "frame R h h'" using l1 by (rule frame_trans)
    then have T1: "frame (insert s R) h h'" by (rule frame_mono) blast
    have T2: "closed_under h' R" using builtin(5,3) c1 r by (rule closed_dict_update)
    have news: "h' ! s = h ! s"
      using frame_nth [OF f2 s1 s(3)] olds by simp
    have T3: "entries_in R h' s" using inv(3) news by (simp add: entries_in_def)
    have T4: "\<forall>k2. k2 \<noteq> k \<longrightarrow> getitem h' s k2 = getitem h s k2"
      by (simp add: getitem_same [OF news])
    have T5: "\<forall>b. getitem h s k = None \<and> nv0 = VRef b \<and> b < length h \<and> cls (h ! b) \<noteq> OtherObj \<longrightarrow>
           (\<exists>a. getitem h' s k = Some (VRef a) \<and> length h \<le> a \<and> a < length h' \<and>
                cls (h' ! a) = QDict \<and> set (keys h b) \<subseteq> set (keys h' a))"
      using gk by simp
    have T6: "\<forall>c' b. getitem h s k = Some (VRef c') \<and> c' < length h \<and> cls (h ! c') = QDict \<and>
           nv0 = VRef b \<and> b < length h \<and> cls (h ! b) \<noteq> OtherObj \<longrightarrow>
           set (keys h b) \<subseteq> set (keys h' c')"
    proof (intro allI impI, elim conjE)
      fix c' b assume c': "getitem h s k = Some (VRef c')" "c' < length h" "cls (h ! c') = QDict"
      from c'(1) gk have cc: "c' = c" by simp
      have "cls (h1 ! c) = cls (h ! c)" using wrap_old [OF builtin(1)] c'(2) cc by simp
      with builtin(4) c'(3) cc have False by simp
      then show "set (keys h b) \<subseteq> set (keys h' c')" ..
    qed
    from T1 T2 T3 T4 T5 T6 show ?thesis by blast
  qed
  then show "frame (insert s R) h h'" and "closed_under h' R" and "entries_in R h' s"
    and "\<forall>k2. k2 \<noteq> k \<longrightarrow> getitem h' s k2 = getitem h s k2"
    and "\<forall>b. getitem h s k = None \<and> nv0 = VRef b \<and> b < length h \<and> cls (h ! b) \<noteq> OtherObj \<longrightarrow>
           (\<exists>a. getitem h' s k = Some (VRef a) \<and> length h \<le> a \<and> a < length h' \<and>
                cls (h' ! a) = QDict \<and> set (keys h b) \<subseteq> set (keys h' a))"
    and "\<forall>c b. getitem h s k = Some (VRef c) \<and> c < length h \<and> cls (h ! c) = QDict \<and>
           nv0 = VRef b \<and> b < length h \<and> cls (h ! b) \<noteq> OtherObj \<longrightarrow>
           set (keys h b) \<subseteq> set (keys h' c)"
    by blast+
qed

lemma source_ok_top:
  assumes "grows h h'" and "frame (insert s R) h h'" and "closed_under h' R" and "upper R h"
    and "entries_in R h' s" and "source_ok h R src" and "src < length h"
    and "src \<notin> R" and "src \<noteq> s" and "s < length h"
  shows "source_ok h' R src"
proof -
  have same: "h' ! src = h ! src"
    using assms(2,7,8,9) by (simp add: frame_def)
  show ?thesis
    unfolding source_ok_def same
  proof
    fix p assume p: "p \<in> set (entries (h ! src))"
    with assms(6) have ok: "val_ok h R (snd p)" by (simp add: source_ok_def)
    show "val_ok h' R (snd p)"
    proof (cases "refs_in R (snd p)")
      case True
      with assms(3) show ?thesis by (rule closed_val_ok)
    next
      case False
      then obtain b where b: "snd p = VRef b" "b \<notin> R"
        by (auto simp: refs_in_def split: val.splits)
      with assms(4) have bl: "b < length h" by (auto simp: upper_def not_le [symmetric])
      then have bl': "b < length h'" using grows_length [OF assms(1)] by simp
      have cb: "cls (h' ! b) = cls (h ! b)" using assms(1) bl by (rule grows_cls)
      have notother: "cls (h ! b) \<noteq> OtherObj"
      proof
        assume "cls (h ! b) = OtherObj"
        with ok b(1) bl have "refs_in R (VRef b)" by (simp add: val_ok_def dyn_type_def)
        with b(2) show False by (simp add: refs_in_def)
      qed
      have eb: "entries_in R h b" using ok b(1) bl notother by (simp add: val_ok_dict)
      have "entries_in R h' b"
      proof (cases "b = s")
        case True
        with assms(5) show ?thesis by simp
      next
        case False
        with assms(2) bl b(2) have "h' ! b = h ! b" by (simp add: frame_def)
        with eb show ?thesis by (simp add: entries_in_def)
      qed
      then have "val_ok h' R (VRef b)"
        using bl' cb notother
        by (cases "cls (h ! b)") (simp_all add: val_ok_def dyn_type_def)
      with b(1) show ?thesis by simp
    qed
  qed
qed

lemma merge_loop_top:
  assumes sep: "s \<notin> R" "src \<notin> R" "src \<noteq> s"
  shows "merge_loop (update d) h s src n True ks = Inr h' \<Longrightarrow> distinct ks \<Longrightarrow>
         s < length h \<Longrightarrow> cls (h ! s) = QDict \<Longrightarrow> src < length h \<Longrightarrow>
         closed_under h R \<Longrightarrow> upper R h \<Longrightarrow> entries_in R h s \<Longrightarrow> source_ok h R src \<Longrightarrow>
         (\<forall>k \<in> set ks. fresh_ok h h' s src k \<and> merged_ok h h' s src k)"
proof (induction ks arbitrary: h)
  case Nil
  then show ?case by simp
next
  case (Cons k ks)
  from Cons.prems(1) obtain nv0 h1 where
    nv0: "getitem h src k = Some nv0" and
    item: "merge_item (update d) h s True k nv0 = Inr h1" and
    rest: "merge_loop (update d) h1 s src n True ks = Inr h'"
    by (auto split: if_splits option.splits sum.splits)
  have ok: "val_ok h R nv0"
    using Cons.prems(9) getitem_in_entries [OF nv0] by (auto simp: source_ok_def)
  note T = merge_item_top [OF item Cons.prems(3,4) sep(1) Cons.prems(6,7,8) ok]
  have g1: "grows h h1" using update_grows item Cons.prems(3,4) by (rule merge_item_grows)
  have l1: "length h \<le> length h1" using g1 by (rule grows_length)
  have s1: "s < length h1" "cls (h1 ! s) = QDict" "src < length h1"
    using l1 Cons.prems(3,4,5) grows_cls [OF g1 Cons.prems(3)] by simp_all
  have u1: "upper R h1" using Cons.prems(7) l1 by (rule upper_mono)
  have so1: "source_ok h1 R src"
    using g1 T(1,2) Cons.prems(7) T(3) Cons.prems(9,5) sep(2,3) Cons.prems(3)
    by (rule source_ok_top)
  have srcsame: "h1 ! src = h ! src"
    using T(1) Cons.prems(5) sep(2,3) by (simp add: frame_def)
  have g2: "grows h1 h'" using rest s1(1,2) by (rule merge_loop_grows [OF update_grows])
  have IH: "\<forall>k2 \<in> set ks. fresh_ok h1 h' s src k2 \<and> merged_ok h1 h' s src k2"
    using rest Cons.prems(2) s1 T(2) u1 T(3) so1 by (intro Cons.IH) simp_all
  have first_fresh: "fresh_ok h h' s src k"
    unfolding fresh_ok_def
  proof (intro allI impI, elim conjE)
    fix b assume b: "getitem h s k = None" "getitem h src k = Some (VRef b)" "b < length h"
      "cls (h ! b) \<noteq> OtherObj"
    from b(2) nv0 have "nv0 = VRef b" by simp
    with T(5) b obtain a where a: "getitem h1 s k = Some (VRef a)" "length h \<le> a"
      "a < length h1" "cls (h1 ! a) = QDict" "set (keys h b) \<subseteq> set (keys h1 a)"
      by blast
    have "getitem h' s k = Some (VRef a)"
      using g2 s1(1,2) a(1,3,4) by (rule grows_qdict_entry)
    moreover have "a < length h'" using a(3) grows_length [OF g2] by simp
    moreover have "cls (h' ! a) = QDict" using grows_cls [OF g2 a(3)] a(4) by simp
    moreover have "set (keys h b) \<subseteq> set (keys h' a)"
      using a(5) grows_keys [OF g2 a(3)] by blast
    ultimately show "\<exists>a. getitem h' s k = Some (VRef a) \<and> length h \<le> a \<and> a < length h' \<and>
             cls (h' ! a) = QDict \<and> set (keys h b) \<subseteq> set (keys h' a)"
      using a(2) by blast
  qed
  have first_merged: "merged_ok h h' s src k"
    unfolding merged_ok_def
  proof (intro allI impI, elim conjE)
    fix c b assume c: "getitem h s k = Some (VRef c)" "c < length h" "cls (h ! c) = QDict"
      and b: "getitem h src k = Some (VRef b)" "b < length h" "cls (h ! b) \<noteq> OtherObj"
    from b(1) nv0 have "nv0 = VRef b" by simp
    with T(6) c b have "set (keys h b) \<subseteq> set (keys h1 c)" by blast
    moreover have "c < length h1" using c(2) l1 by simp
    ultimately show "set (keys h b) \<subseteq> set (keys h' c)"
      using grows_keys [OF g2] by blast
  qed
  have others: "\<forall>k2 \<in> set ks. fresh_ok h h' s src k2 \<and> merged_ok h h' s src k2"
  proof
    fix k2 assume k2: "k2 \<in> set ks"
    with Cons.prems(2) have ne: "k2 \<noteq> k" by auto
    from IH k2 have f1: "fresh_ok h1 h' s src k2" and m1: "merged_ok h1 h' s src k2" by simp_all
    have sk: "getitem h1 s k2 = getitem h s k2" using T(4) ne by simp
    have srck: "getitem h1 src k2 = getitem h src k2" using srcsame by (rule getitem_same)
    have fresh: "fresh_ok h h' s src k2"
      unfolding fresh_ok_def
    proof (intro allI impI, elim conjE)
      fix b assume b: "getitem h s k2 = None" "getitem h src k2 = Some (VRef b)" "b < length h"
        "cls (h ! b) \<noteq> OtherObj"
      have "b < length h1" using b(3) l1 by simp
      moreover have "cls (h1 ! b) \<noteq> OtherObj" using grows_cls [OF g1 b(3)] b(4) by simp
      ultimately obtain a where a: "getitem h' s k2 = Some (VRef a)" "length h1 \<le> a"
        "a < length h'" "cls (h' ! a) = QDict" "set (keys h1 b) \<subseteq> set (keys h' a)"
        using f1 b(1,2) sk srck unfolding fresh_ok_def by force
      have "set (keys h b) \<subseteq> set (keys h' a)" using grows_keys [OF g1 b(3)] a(5) by blast
      moreover have "length h \<le> a" using a(2) l1 by simp
      ultimately show "\<exists>a. getitem h' s k2 = Some (VRef a) \<and> length h \<le> a \<and> a < length h' \<and>
             cls (h' ! a) = QDict \<and> set (keys h b) \<subseteq> set (keys h' a)"
        using a(1,3,4) by blast
    qed
    have merged: "merged_ok h h' s src k2"
      unfolding merged_ok_def
    proof (intro allI impI, elim conjE)
      fix c b assume c: "getitem h s k2 = Some (VRef c)" "c < length h" "cls (h ! c) = QDict"
        and b: "getitem h src k2 = Some (VRef b)" "b < length h" "cls (h ! b) \<noteq> OtherObj"
      have "c < length h1" "b < length h1" using c(2) b(2) l1 by simp_all
      moreover have "cls (h1 ! c) = QDict" "cls (h1 ! b) \<noteq> OtherObj"
        using grows_cls [OF g1 c(2)] grows_cls [OF g1 b(2)] c(3) b(3) by simp_all
      ultimately have "set (keys h1 b) \<subseteq> set (keys h' c)"
        using m1 c(1) b(1) sk srck unfolding merged_ok_def by force
      then show "set (keys h b) \<subseteq> set (keys h' c)" using grows_keys [OF g1 b(2)] by blast
    qed
    from fresh merged show "fresh_ok h h' s src k2 \<and> merged_ok h h' s src k2" ..
  qed
  from first_fresh first_merged others show ?case by simp
qed

lemma update_top:
  assumes sep: "separated h R s src"
    and s: "s < length h" "cls (h ! s) = QDict"
    and src: "src < length h" "cls (h ! src) \<noteq> OtherObj"
    and wf: "wf_heap h"
    and run: "qdict_update d h s (VRef src) True True True = Inr (h', r)"
  shows "r = VRef s" and "grows h h'"
    and "\<forall>k \<in> set (keys h src). fresh_ok h h' s src k \<and> merged_ok h h' s src k"
proof -
  from run have upd: "update d h s (VRef src) True True True = Inr h'" and r: "r = VRef s"
    by (auto simp: qdict_update_def split: sum.splits)
  show "r = VRef s" by (rule r)
  show g: "grows h h'"
    using update_grows [of d] upd s unfolding upd_grows_def by blast
  from upd obtain d' where d: "d = Suc d'" by (cases d) auto
  from src have "dyn_type h (VRef src) = IsDict src \<or> dyn_type h (VRef src) = IsQDict src"
    by (cases "cls (h ! src)") simp_all
  then have "update (Suc d') h s (VRef src) True True True
      = merge_loop (update d') h s src (len h src) True (keys h src)"
    by (auto simp: update_from_def simp del: dyn_type_IsDict dyn_type_IsQDict)
  with upd d have loop: "merge_loop (update d') h s src (len h src) True (keys h src) = Inr h'"
    by simp
  have dist: "distinct (keys h src)"
    unfolding keys_def using wf src(1) by (rule wf_heap_nth)
  from sep have "s \<notin> R" "src \<notin> R" "src \<noteq> s" "closed_under h R" "upper R h" "entries_in R h s"
    "source_ok h R src"
    by (simp_all add: separated_def)
  then show "\<forall>k \<in> set (keys h src). fresh_ok h h' s src k \<and> merged_ok h h' s src k"
    using loop dist s src(1) by (intro merge_loop_top [where R = R and d = d' and n = "len h src"])
qed

lemma store_nested_run:
  "qdict_update (Suc (Suc 0)) store_nested 0 (VRef 1) True True True
   = Inr (store_nested_after, VRef 0)"
  by (simp add: qdict_update_def update_from_def merge_item_def wrap_def new_qdict_def
      dyn_type_def dict_update_def getitem_def setitem_def keys_def len_def
      store_nested_def store_nested_after_def)

lemma store_alias_run:
  "qdict_update (Suc (Suc 0)) store_alias 0 (VRef 1) True True True
   = Inr (store_alias_after, VRef 0)"
  by (simp add: qdict_update_def update_from_def merge_item_def wrap_def new_qdict_def
      dyn_type_def dict_update_def getitem_def setitem_def keys_def len_def
      store_alias_def store_alias_after_def)

lemma store_nested_separated: "separated store_nested {a. 2 \<le> a} 0 1"
  by (simp add: separated_def upper_def closed_under_def entries_in_def source_ok_def val_ok_def
      refs_in_def dyn_type_def store_nested_def nth_Cons' )




end
